theory Spec2Isabelle
  imports Main
begin

section \<open>JavaScript strings and the regular expressions of the source\<close>

text \<open>
  A JavaScript string is a sequence of UTF-16 code units; a code unit is modelled by its
  number. ASCII literals of the source are written with \<open>js\<close>.
\<close>

type_synonym jschar = nat
type_synonym jsstring = "jschar list"

definition js :: "string \<Rightarrow> jsstring" where
  "js s = map of_char s"

text \<open>The class \<open>\w\<close> of a regular expression without the \<open>u\<close> flag: \<open>[A-Za-z0-9_]\<close>.\<close>

definition is_word_char :: "jschar \<Rightarrow> bool" where
  "is_word_char c = ((48 \<le> c \<and> c \<le> 57) \<or> (65 \<le> c \<and> c \<le> 90) \<or> c = 95 \<or> (97 \<le> c \<and> c \<le> 122))"

text \<open>
  The canonical form the \<open>i\<close> flag compares (upper case of a single code unit). The
  model carries the case pairs of ASCII and of the Latin-1 letters; every other code
  unit is its own canonical form here. The patterns of the source consist of ASCII
  letters and of U+00FA, U+00FE and U+00F0, whose only case partners are U+00DA, U+00DE
  and U+00D0, so no other code unit matches a pattern character.
\<close>

definition canonicalize :: "jschar \<Rightarrow> jschar" where
  "canonicalize c =
     (if (97 \<le> c \<and> c \<le> 122) \<or> (224 \<le> c \<and> c \<le> 254 \<and> c \<noteq> 247) then c - 32 else c)"

definition first_cu :: "jsstring \<Rightarrow> jschar option" where
  "first_cu s = (case s of [] \<Rightarrow> None | c # cs \<Rightarrow> Some c)"

definition wordness :: "jschar option \<Rightarrow> bool" where
  "wordness x = (case x of None \<Rightarrow> False | Some c \<Rightarrow> is_word_char c)"

text \<open>The assertion \<open>\b\<close> between the code unit before a position and the one at it.\<close>

definition boundary :: "jschar option \<Rightarrow> jschar option \<Rightarrow> bool" where
  "boundary a b = (wordness a \<noteq> wordness b)"

text \<open>A literal matched at the head of a string under the \<open>i\<close> flag; the result is the rest.\<close>

fun lit_match :: "jsstring \<Rightarrow> jsstring \<Rightarrow> jsstring option" where
  "lit_match [] s = Some s"
| "lit_match (p # ps) [] = None"
| "lit_match (p # ps) (c # cs) =
     (if canonicalize c = canonicalize p then lit_match ps cs else None)"

text \<open>
  \<open>new RegExp(`\\b${word}\\b`, 'i')\<close> tried at one position: \<open>prev\<close> is the code
  unit before the position, \<open>s\<close> the string from the position on. The words of the
  source are non-empty.
\<close>

definition match_at :: "jsstring \<Rightarrow> jschar option \<Rightarrow> jsstring \<Rightarrow> bool" where
  "match_at pat prev s =
     (pat \<noteq> [] \<and> boundary prev (first_cu s) \<and>
      (case lit_match pat s of
         None \<Rightarrow> False
       | Some rest \<Rightarrow> boundary (Some (s ! (length pat - 1))) (first_cu rest)))"

text \<open>\<open>regex.test(text)\<close>: some position matches.\<close>

fun regex_test :: "jsstring \<Rightarrow> jschar option \<Rightarrow> jsstring \<Rightarrow> bool" where
  "regex_test pat prev [] = False"
| "regex_test pat prev (c # cs) =
     (match_at pat prev (c # cs) \<or> regex_test pat (Some c) cs)"

text \<open>
  \<open>text.replace(regex, correct)\<close> with the \<open>g\<close> flag: matches are taken from left to
  right, the search resumes after each match, and what lies between matches is kept.
\<close>

function regex_replace :: "jsstring \<Rightarrow> jsstring \<Rightarrow> jschar option \<Rightarrow> jsstring \<Rightarrow> jsstring" where
  "regex_replace pat rep prev [] = []"
| "regex_replace pat rep prev (c # cs) =
     (if match_at pat prev (c # cs)
      then rep @ regex_replace pat rep (Some ((c # cs) ! (length pat - 1))) (drop (length pat) (c # cs))
      else c # regex_replace pat rep (Some c) cs)"
  by pat_completeness auto
termination
  by (relation "measure (\<lambda>(pat, rep, prev, s). length s)") (auto simp: match_at_def)

text \<open>
  \<open>text.toLowerCase()\<close>. The model lowers ASCII and Latin-1 capitals and the two code
  units outside ASCII whose lower case contains an ASCII letter: the Kelvin sign U+212A
  (to \<open>k\<close>) and U+0130 (to \<open>i\<close> followed by U+0307). Every other code unit outside ASCII
  lowers to code units outside ASCII and is kept as it is: the patterns the lowered
  text is compared with are ASCII, and \<open>\b\<close> sees only whether a code unit is an
  ASCII word character.
\<close>

definition lower_cu :: "jschar \<Rightarrow> jsstring" where
  "lower_cu c =
     (if (65 \<le> c \<and> c \<le> 90) \<or> (192 \<le> c \<and> c \<le> 222 \<and> c \<noteq> 215) then [c + 32]
      else if c = 8490 then [107]
      else if c = 304 then [105, 775]
      else [c])"

definition toLowerCase :: "jsstring \<Rightarrow> jsstring" where
  "toLowerCase s = concat (map lower_cu s)"


section \<open>Fallback language classification (VoiceInterface.jsx, detectLanguage)\<close>

definition is_devanagari :: "jschar \<Rightarrow> bool" where
  "is_devanagari c = (2304 \<le> c \<and> c \<le> 2431)"

definition strongHindiWords :: "string list" where
  "strongHindiWords =
     [''ko'', ''ka'', ''ki'', ''ke'', ''hai'', ''hain'', ''bhejo'', ''bhej'', ''kitna'', ''kya'',
      ''mera'', ''tera'', ''uska'', ''karo'', ''kaise'', ''kyun'', ''meri'', ''aap'', ''aapka'',
      ''sakti'', ''sakta'', ''kya'', ''kyun'', ''kaise'', ''rupaye'', ''rupaye'', ''sau'',
      ''pachas'', ''bees'', ''pachees'', ''paanch'', ''das'']"

definition detectLanguage :: "jsstring \<Rightarrow> string" where
  "detectLanguage txt =
     (if list_ex is_devanagari txt then ''hi''
      else
        let lowerText = toLowerCase txt;
            hindiWordCount =
              length (filter (\<lambda>word. regex_test (js word) None lowerText) strongHindiWords)
        in if hindiWordCount \<ge> 1 then ''hi'' else ''en'')"

text \<open>
  The specification's words, for comparison with the scan of \<open>regex_test\<close>: a
  case-insensitive whole-word match of \<open>w\<close> in \<open>t\<close> is a piece \<open>m\<close> of \<open>t\<close> that
  equals \<open>w\<close> up to case and has a word boundary on each side.
\<close>

definition last_cu :: "jsstring \<Rightarrow> jschar option" where
  "last_cu s = (if s = [] then None else Some (last s))"

definition whole_word_match :: "jsstring \<Rightarrow> jsstring \<Rightarrow> bool" where
  "whole_word_match w t =
     (\<exists>pre m post. t = pre @ m @ post \<and> w \<noteq> [] \<and>
        map canonicalize m = map canonicalize w \<and>
        boundary (last_cu pre) (first_cu (m @ post)) \<and>
        boundary (last_cu m) (first_cu post))"

text \<open>
  A word standing alone in a text: the piece \<open>m\<close> lowers to the word, and the code unit
  on each side of it, if there is one, is not a letter, digit or underscore (the
  Kelvin sign and U+0130, which lower to ASCII letters, count as letters).
\<close>

definition is_separator :: "jschar \<Rightarrow> bool" where
  "is_separator c = (\<not> is_word_char c \<and> c \<noteq> 8490 \<and> c \<noteq> 304)"

definition standalone_word :: "string \<Rightarrow> jsstring \<Rightarrow> bool" where
  "standalone_word w t =
     (\<exists>pre m post. t = pre @ m @ post \<and> toLowerCase m = js w \<and>
        (pre = [] \<or> is_separator (last pre)) \<and> (post = [] \<or> is_separator (hd post)))"

subsection \<open>The scan of the regular expression and the whole-word match\<close>

lemma lit_match_eq:
  "lit_match pat s =
     (if length pat \<le> length s \<and> map canonicalize (take (length pat) s) = map canonicalize pat
      then Some (drop (length pat) s) else None)"
  by (induction pat s rule: lit_match.induct) auto

lemma match_at_split:
  "match_at pat prev s \<longleftrightarrow>
     (\<exists>m post. s = m @ post \<and> pat \<noteq> [] \<and> map canonicalize m = map canonicalize pat \<and>
        boundary prev (first_cu (m @ post)) \<and> boundary (last_cu m) (first_cu post))"
  (is "?L \<longleftrightarrow> ?R")
proof
  assume L: ?L
  let ?n = "length pat"
  from L have ne: "pat \<noteq> []" and b1: "boundary prev (first_cu s)"
    and len: "?n \<le> length s"
    and eq: "map canonicalize (take ?n s) = map canonicalize pat"
    and b2: "boundary (Some (s ! (?n - 1))) (first_cu (drop ?n s))"
    by (auto simp: match_at_def lit_match_eq split: if_splits)
  from ne len have tne: "take ?n s \<noteq> []" by auto
  from ne have npos: "0 < ?n" by simp
  from tne have "last (take ?n s) = take ?n s ! (length (take ?n s) - 1)"
    by (rule last_conv_nth)
  also from len have "length (take ?n s) = ?n" by simp
  also from npos have "take ?n s ! (?n - 1) = s ! (?n - 1)" by simp
  finally have "last (take ?n s) = s ! (?n - 1)" .
  with tne have "last_cu (take ?n s) = Some (s ! (?n - 1))" by (simp add: last_cu_def)
  with b1 b2 eq ne have "s = take ?n s @ drop ?n s \<and> pat \<noteq> [] \<and>
      map canonicalize (take ?n s) = map canonicalize pat \<and>
      boundary prev (first_cu (take ?n s @ drop ?n s)) \<and>
      boundary (last_cu (take ?n s)) (first_cu (drop ?n s))" by simp
  then show ?R by blast
next
  assume ?R
  then obtain m post where s: "s = m @ post" and ne: "pat \<noteq> []"
    and eq: "map canonicalize m = map canonicalize pat"
    and b1: "boundary prev (first_cu (m @ post))"
    and b2: "boundary (last_cu m) (first_cu post)" by blast
  from eq have len: "length m = length pat" using length_map by metis
  with ne have mne: "m \<noteq> []" by auto
  from mne len have "length pat - 1 < length m" by (cases m) auto
  then have "last m = s ! (length pat - 1)"
    using mne len s by (simp add: last_conv_nth nth_append)
  with mne have "last_cu m = Some (s ! (length pat - 1))" by (simp add: last_cu_def)
  with b1 b2 eq ne len s show ?L
    by (simp add: match_at_def lit_match_eq)
qed

text \<open>The whole-word match with the code unit before the text made explicit.\<close>

definition occurs :: "jsstring \<Rightarrow> jschar option \<Rightarrow> jsstring \<Rightarrow> bool" where
  "occurs pat prev s =
     (\<exists>pre m post. s = pre @ m @ post \<and> pat \<noteq> [] \<and>
        map canonicalize m = map canonicalize pat \<and>
        boundary (if pre = [] then prev else Some (last pre)) (first_cu (m @ post)) \<and>
        boundary (last_cu m) (first_cu post))"

lemma occurs_Nil: "\<not> occurs pat prev []"
  by (auto simp: occurs_def)

lemma occurs_Cons:
  "occurs pat prev (c # cs) \<longleftrightarrow> match_at pat prev (c # cs) \<or> occurs pat (Some c) cs"
  (is "?L \<longleftrightarrow> ?R")
proof
  assume ?L
  then obtain pre m post where s: "c # cs = pre @ m @ post" and ne: "pat \<noteq> []"
    and eq: "map canonicalize m = map canonicalize pat"
    and b1: "boundary (if pre = [] then prev else Some (last pre)) (first_cu (m @ post))"
    and b2: "boundary (last_cu m) (first_cu post)"
    unfolding occurs_def by blast
  show ?R
  proof (cases pre)
    case Nil
    with s ne eq b1 b2 have "match_at pat prev (c # cs)"
      unfolding match_at_split by auto
    then show ?thesis ..
  next
    case (Cons x pre')
    with s have x: "x = c" and cs: "cs = pre' @ m @ post" by auto
    have "(if pre' = [] then Some c else Some (last pre')) = (if pre = [] then prev else Some (last pre))"
      using Cons x by auto
    with b1 have "boundary (if pre' = [] then Some c else Some (last pre')) (first_cu (m @ post))"
      by simp
    with cs ne eq b2 have "occurs pat (Some c) cs" unfolding occurs_def by blast
    then show ?thesis ..
  qed
next
  assume R: ?R
  show ?L
  proof (cases "match_at pat prev (c # cs)")
    case True
    then obtain m post where "c # cs = [] @ m @ post" "pat \<noteq> []"
      "map canonicalize m = map canonicalize pat"
      "boundary (if ([]::jsstring) = [] then prev else Some (last [])) (first_cu (m @ post))"
      "boundary (last_cu m) (first_cu post)"
      unfolding match_at_split by auto
    then show ?thesis unfolding occurs_def by blast
  next
    case False
    with R have "occurs pat (Some c) cs" by simp
    then obtain pre m post where cs: "cs = pre @ m @ post" and ne: "pat \<noteq> []"
      and eq: "map canonicalize m = map canonicalize pat"
      and b1: "boundary (if pre = [] then Some c else Some (last pre)) (first_cu (m @ post))"
      and b2: "boundary (last_cu m) (first_cu post)"
      unfolding occurs_def by blast
    have "c # cs = (c # pre) @ m @ post" using cs by simp
    moreover have "boundary (if c # pre = [] then prev else Some (last (c # pre))) (first_cu (m @ post))"
      using b1 by auto
    ultimately show ?thesis using ne eq b2 unfolding occurs_def by blast
  qed
qed

lemma regex_test_occurs: "regex_test pat prev s \<longleftrightarrow> occurs pat prev s"
  by (induction s arbitrary: prev) (simp_all add: occurs_Nil occurs_Cons)

lemma whole_word_match_occurs: "whole_word_match w t \<longleftrightarrow> occurs w None t"
proof -
  have "\<And>pre::jsstring. last_cu pre = (if pre = [] then None else Some (last pre))"
    by (simp add: last_cu_def)
  then show ?thesis unfolding whole_word_match_def occurs_def by simp
qed


lemma detectLanguage_policy:
  "detectLanguage t =
     (if list_ex is_devanagari t then ''hi''
      else if \<exists>w \<in> set strongHindiWords. whole_word_match (js w) (toLowerCase t) then ''hi''
      else ''en'')"
proof -
  have "(1 \<le> length (filter (\<lambda>word. regex_test (js word) None (toLowerCase t)) strongHindiWords))
      \<longleftrightarrow> (\<exists>w \<in> set strongHindiWords. whole_word_match (js w) (toLowerCase t))"
    (is "(1 \<le> length ?l) \<longleftrightarrow> ?R")
  proof -
    have "(1 \<le> length ?l) \<longleftrightarrow> ?l \<noteq> []" by (cases ?l) auto
    also have "\<dots> \<longleftrightarrow> (\<exists>w \<in> set strongHindiWords. regex_test (js w) None (toLowerCase t))"
      by (simp add: filter_empty_conv)
    finally show ?thesis by (simp add: regex_test_occurs whole_word_match_occurs)
  qed
  then show ?thesis by (simp add: detectLanguage_def Let_def)
qed

lemma send_ten_lowered:
  "toLowerCase (js ''Send ten rupees to Neeraj'') = js ''send ten rupees to neeraj''"
  by (simp add: toLowerCase_def js_def lower_cu_def)

lemma detectLanguage_send_ten: "detectLanguage (js ''Send ten rupees to Neeraj'') = ''en''"
proof -
  have "\<not> list_ex is_devanagari (js ''Send ten rupees to Neeraj'')"
    by (simp add: js_def is_devanagari_def)
  moreover have "filter (\<lambda>word. regex_test (js word) None (js ''send ten rupees to neeraj'')) strongHindiWords = []"
    by (simp add: strongHindiWords_def js_def match_at_def boundary_def wordness_def first_cu_def
        is_word_char_def canonicalize_def)
  ultimately show ?thesis by (simp add: detectLanguage_def send_ten_lowered)
qed

lemma toLowerCase_append: "toLowerCase (a @ b) = toLowerCase a @ toLowerCase b"
  by (simp add: toLowerCase_def)

lemma lower_cu_separator:
  "is_separator c \<Longrightarrow> \<exists>d. lower_cu c = [d] \<and> \<not> is_word_char d"
  by (auto simp: is_separator_def lower_cu_def is_word_char_def)

lemma lowered_before:
  assumes "pre = [] \<or> is_separator (last pre)"
  shows "\<not> wordness (last_cu (toLowerCase pre))"
proof (cases pre rule: rev_cases)
  case Nil
  then show ?thesis by (simp add: toLowerCase_def last_cu_def wordness_def)
next
  case (snoc ys c)
  with assms have "is_separator c" by simp
  then obtain d where "lower_cu c = [d]" "\<not> is_word_char d"
    using lower_cu_separator by blast
  with snoc show ?thesis by (simp add: toLowerCase_def last_cu_def wordness_def)
qed

lemma lowered_after:
  assumes "post = [] \<or> is_separator (hd post)"
  shows "\<not> wordness (first_cu (toLowerCase post))"
proof (cases post)
  case Nil
  then show ?thesis by (simp add: toLowerCase_def first_cu_def wordness_def)
next
  case (Cons c ys)
  with assms have "is_separator c" by simp
  then obtain d where "lower_cu c = [d]" "\<not> is_word_char d"
    using lower_cu_separator by blast
  with Cons show ?thesis by (simp add: toLowerCase_def first_cu_def wordness_def)
qed

lemma standalone_whole_word:
  assumes sw: "standalone_word w t"
    and first: "w \<noteq> []" "is_word_char (of_char (hd w))" "is_word_char (of_char (last w))"
  shows "whole_word_match (js w) (toLowerCase t)"
proof -
  from sw obtain pre m post where t: "t = pre @ m @ post" and m: "toLowerCase m = js w"
    and pre: "pre = [] \<or> is_separator (last pre)" and post: "post = [] \<or> is_separator (hd post)"
    unfolding standalone_word_def by blast
  have low: "toLowerCase t = toLowerCase pre @ js w @ toLowerCase post"
    using t m by (simp add: toLowerCase_append)
  from first have jne: "js w \<noteq> []" by (simp add: js_def)
  from first have f: "first_cu (js w @ toLowerCase post) = Some (of_char (hd w))"
    by (cases w) (simp_all add: js_def first_cu_def)
  from first have l: "last_cu (js w) = Some (of_char (last w))"
    by (simp add: js_def last_cu_def last_map)
  have b1: "boundary (last_cu (toLowerCase pre)) (first_cu (js w @ toLowerCase post))"
    using lowered_before[OF pre] first f by (simp add: boundary_def wordness_def)
  have b2: "boundary (last_cu (js w)) (first_cu (toLowerCase post))"
    using lowered_after[OF post] first l by (simp add: boundary_def wordness_def)
  from low jne b1 b2 show ?thesis unfolding whole_word_match_def by blast
qed

lemma detectLanguage_standalone:
  assumes "w = ''kya'' \<or> w = ''hai''" and "standalone_word w t"
  shows "detectLanguage t = ''hi''"
proof -
  from assms(1) have mem: "w \<in> set strongHindiWords" by (auto simp: strongHindiWords_def)
  from assms(1) have "w \<noteq> []" "is_word_char (of_char (hd w))" "is_word_char (of_char (last w))"
    by (auto simp: is_word_char_def)
  with assms(2) have "whole_word_match (js w) (toLowerCase t)" by (rule standalone_whole_word)
  with mem show ?thesis unfolding detectLanguage_policy by auto
qed

text \<open>
  Claim C4. The fallback classifier returns \<open>hi\<close> for a text with a code unit of the
  Devanagari block; otherwise \<open>hi\<close> when a word of the fixed list has a
  case-insensitive whole-word match in the text; otherwise \<open>en\<close>. The sentence
  "Send ten rupees to Neeraj" is classified \<open>en\<close>, and every text in which \<open>kya\<close> or
  \<open>hai\<close> stands alone as a word is classified \<open>hi\<close>.
\<close>

theorem detectLanguage_classifies:
  "(\<forall>t. detectLanguage t =
      (if list_ex is_devanagari t then ''hi''
       else if \<exists>w \<in> set strongHindiWords. whole_word_match (js w) (toLowerCase t) then ''hi''
       else ''en'')) \<and>
   detectLanguage (js ''Send ten rupees to Neeraj'') = ''en'' \<and>
   (\<forall>t w. (w = ''kya'' \<or> w = ''hai'') \<longrightarrow> standalone_word w t \<longrightarrow> detectLanguage t = ''hi'')"
  using detectLanguage_policy detectLanguage_send_ten detectLanguage_standalone by blast

theorem detectLanguage_classifies_witness:
  "standalone_word ''kya'' (js ''balance kya hai'') \<and>
   detectLanguage (js ''balance kya hai'') = ''hi''"
proof -
  have "js ''balance kya hai'' = js ''balance '' @ js ''kya'' @ js '' hai''"
    by (simp add: js_def)
  moreover have "toLowerCase (js ''kya'') = js ''kya''"
    by (simp add: toLowerCase_def js_def lower_cu_def)
  moreover have "is_separator (last (js ''balance ''))" "is_separator (hd (js '' hai''))"
    by (simp_all add: js_def is_separator_def is_word_char_def)
  ultimately have sw: "standalone_word ''kya'' (js ''balance kya hai'')"
    unfolding standalone_word_def by blast
  with detectLanguage_classifies show ?thesis by blast
qed

section \<open>Intent router and pending payment (App_Paytm.jsx)\<close>

text \<open>
  Values of the JSON response that the router reads without knowing their type, with
  JavaScript's truthiness.
\<close>

datatype jsvalue = JUndefined | JNull | JBool bool | JNum int | JStr jsstring


text \<open>
  The response \<open>{intent, message, data}\<close> of the intent endpoint, a JSON object:
  \<open>data\<close> may be absent, and \<open>message\<close> is whatever the object holds under that
  key (\<open>JUndefined\<close> when it holds nothing).
\<close>

record response_data =
  requires_pin :: jsvalue
  recipient :: jsvalue
  amount :: jsvalue

record response =
  intent :: string
  message :: jsvalue
  data :: "response_data option"

text \<open>The object \<open>{recipient, amount}\<close> kept in \<open>pendingPayment\<close>.\<close>

record pending_payment =
  pay_recipient :: jsvalue
  pay_amount :: jsvalue

text \<open>The payload \<open>response.data\<close> of a successful payment, handed to \<open>onSuccess\<close>.\<close>

record payment_data =
  new_balance :: jsvalue
  nudge :: jsvalue

text \<open>
  The state hooks of \<open>PaytmApp\<close> that its modal handlers write. \<open>loadUserDataCalls\<close>
  counts the refreshes requested with \<open>loadUserData()\<close>, at once or by timer; the
  voice interface is rendered exactly when \<open>showVoiceModal\<close> holds and the PIN modal
  exactly when \<open>showPinModal\<close> holds.
\<close>

record app_state =
  showVoiceModal :: bool
  showPinModal :: bool
  pendingPayment :: "pending_payment option"
  showSuccessModal :: bool
  successPayment :: "pending_payment option"
  investmentNudge :: "jsvalue option"
  balance :: jsvalue
  loadUserDataCalls :: nat

















section \<open>PIN confirmation (PinModal)\<close>

text \<open>
  The hooks of \<open>PinModal\<close>, and what its handlers do to the world outside them:
  \<open>focusedInput\<close> is the input to which a call of \<open>focus()\<close> by a handler last moved
  the focus, \<open>paymentCalls\<close> lists the PIN of every \<open>makePayment\<close> call (recipient,
  amount and user are props and the same in each), \<open>onSuccessCalls\<close> the payloads
  handed to \<open>onSuccess\<close>. The modal renders one input for each entry of \<open>pin\<close>, all
  of them with \<open>disabled={loading}\<close>.
\<close>

record pin_state =
  pin :: "jsstring list"
  error :: jsstring
  loading :: bool
  focusedInput :: "nat option"
  paymentCalls :: "jsstring list"
  onSuccessCalls :: "payment_data option list"

text \<open>
  How \<open>await makePayment(...)\<close> comes back: with a response, of which the handler
  reads whether \<open>success\<close> is truthy, \<open>message\<close> and \<open>data\<close>, or with an exception.
\<close>

datatype payment_outcome = Responds bool "jsstring option" "payment_data option" | Throws

definition is_digit :: "jschar \<Rightarrow> bool" where
  "is_digit c = (48 \<le> c \<and> c \<le> 57)"

text \<open>\<open>newPin[index] = v\<close>: an index past the end extends the array, the holes join as empty.\<close>

definition array_set :: "jsstring list \<Rightarrow> nat \<Rightarrow> jsstring \<Rightarrow> jsstring list" where
  "array_set xs i v =
     (if i < length xs then xs[i := v] else xs @ replicate (i - length xs) [] @ [v])"

text \<open>
  \<open>inputRefs.current[i]?.focus()\<close> with \<open>n\<close> inputs rendered and enabled. The handlers
  \<open>handleChange\<close> and \<open>handleKeyDown\<close> run on an event of an input, which only an
  enabled input fires, and the four inputs are enabled or disabled together.
\<close>

definition focus_input :: "nat \<Rightarrow> nat \<Rightarrow> pin_state \<Rightarrow> pin_state" where
  "focus_input n i s = (if i < n then s\<lparr>focusedInput := Some i\<rparr> else s)"

text \<open>
  The same call where the inputs may be disabled: the browser does not move the focus to
  a disabled input, and \<open>focus()\<close> on it does nothing.
\<close>

definition focus_rendered :: "bool \<Rightarrow> nat \<Rightarrow> nat \<Rightarrow> pin_state \<Rightarrow> pin_state" where
  "focus_rendered disabled n i s = (if disabled then s else focus_input n i s)"

text \<open>\<open>response.message || 'Payment failed'\<close>.\<close>

definition message_or_default :: "jsstring option \<Rightarrow> jsstring" where
  "message_or_default m =
     (case m of None \<Rightarrow> js ''Payment failed''
      | Some t \<Rightarrow> if t \<noteq> [] then t else js ''Payment failed'')"

text \<open>
  \<open>handleSubmit(pinValue)\<close>. The handler sets \<open>loading\<close> and then awaits the payment
  call; the component is rendered again before the answer comes, so that the branches
  after the \<open>await\<close> meet the inputs as \<open>loading\<close> rendered them, and \<open>loading\<close> is
  reset only in the \<open>finally\<close> block, after the calls of \<open>focus()\<close>.
\<close>

definition handleSubmit :: "jsstring \<Rightarrow> payment_outcome \<Rightarrow> pin_state \<Rightarrow> pin_state" where
  "handleSubmit pinValue outcome s =
     (if length pinValue \<noteq> 4 then s\<lparr>error := js ''Please enter 4-digit PIN''\<rparr>
      else
        let n = length (pin s);
            s1 = s\<lparr>loading := True, error := [], paymentCalls := paymentCalls s @ [pinValue]\<rparr>;
            s2 = (case outcome of
                    Responds ok msg d \<Rightarrow>
                      if ok then s1\<lparr>onSuccessCalls := onSuccessCalls s1 @ [d]\<rparr>
                      else focus_rendered (loading s1) n 0
                             (s1\<lparr>error := message_or_default msg, pin := [[], [], [], []]\<rparr>)
                  | Throws \<Rightarrow>
                      focus_rendered (loading s1) n 0
                        (s1\<lparr>error := js ''Payment failed. Please try again.'',
                            pin := [[], [], [], []]\<rparr>))
        in s2\<lparr>loading := False\<rparr>)"

text \<open>
  \<open>handleChange(index, v)\<close>; \<open>outcome\<close> is the answer to the payment call in case the
  handler submits.
\<close>

definition handleChange :: "nat \<Rightarrow> jsstring \<Rightarrow> payment_outcome \<Rightarrow> pin_state \<Rightarrow> pin_state" where
  "handleChange index v outcome s =
     (if length v > 1 then s
      else if v \<noteq> [] \<and> \<not> list_all is_digit v then s
      else
        let newPin = array_set (pin s) index v;
            s1 = s\<lparr>pin := newPin, error := []\<rparr>;
            s2 = (if v \<noteq> [] \<and> index < 3 then focus_input (length (pin s)) (index + 1) s1 else s1)
        in if index = 3 \<and> v \<noteq> [] then handleSubmit (concat newPin) outcome s2 else s2)"

definition handleKeyDown :: "nat \<Rightarrow> jsstring \<Rightarrow> pin_state \<Rightarrow> pin_state" where
  "handleKeyDown index k s =
     (if k = js ''Backspace'' \<and> (index \<ge> length (pin s) \<or> pin s ! index = []) \<and> index > 0
      then focus_input (length (pin s)) (index - 1) s else s)"

text \<open>Four inputs, each empty or holding one digit.\<close>

definition pin_wf :: "pin_state \<Rightarrow> bool" where
  "pin_wf s = (length (pin s) = 4 \<and> list_all (\<lambda>e. e = [] \<or> (length e = 1 \<and> list_all is_digit e)) (pin s))"

definition pin_init :: pin_state where
  "pin_init =
     \<lparr>pin = [[], [], [], []], error = [], loading = False, focusedInput = Some 0,
      paymentCalls = [], onSuccessCalls = []\<rparr>"

subsection \<open>Entering the digits\<close>

lemma handleChange_advance:
  "pin_wf s \<and> is_digit d \<and> index < 3 \<longrightarrow>
     handleChange index [d] outcome s
       = s\<lparr>pin := (pin s)[index := [d]], error := [], focusedInput := Some (index + 1)\<rparr>"
  by (auto simp: handleChange_def pin_wf_def array_set_def focus_input_def Let_def)

lemma handleKeyDown_back:
  "pin_wf s \<and> 0 < index \<and> index < 4 \<and> pin s ! index = [] \<longrightarrow>
     handleKeyDown index (js ''Backspace'') s = s\<lparr>focusedInput := Some (index - 1)\<rparr>"
  by (auto simp: handleKeyDown_def pin_wf_def focus_input_def)

lemma handleChange_autosubmit:
  "is_digit d \<and> pin s = [[a], [b], [c], x] \<longrightarrow>
     paymentCalls (handleChange 3 [d] outcome s) = paymentCalls s @ [[a, b, c, d]]"
  by (auto simp: handleChange_def array_set_def handleSubmit_def focus_input_def
      focus_rendered_def Let_def split: payment_outcome.splits)

lemma handleSubmit_short:
  "length pinValue \<noteq> 4 \<longrightarrow>
     handleSubmit pinValue outcome s = s\<lparr>error := js ''Please enter 4-digit PIN''\<rparr>"
  by (simp add: handleSubmit_def)

lemma handleChange_rejects:
  "\<not> (v = [] \<or> (length v = 1 \<and> list_all is_digit v)) \<longrightarrow> handleChange index v outcome s = s"
  by (cases v) (auto simp: handleChange_def)

lemma pin_wf_focus: "pin_wf (focus_input n i t) = pin_wf t"
  by (simp add: focus_input_def pin_wf_def)

lemma pin_wf_handleSubmit: "pin_wf t \<Longrightarrow> pin_wf (handleSubmit pv outcome t)"
  by (auto simp: handleSubmit_def pin_wf_def focus_input_def focus_rendered_def Let_def
      split: payment_outcome.splits)

lemma pin_wf_update:
  assumes "pin_wf s" "index < 4" "v = [] \<or> (length v = 1 \<and> list_all is_digit v)"
  shows "pin_wf (s\<lparr>pin := (pin s)[index := v], error := []\<rparr>)"
proof -
  have "set ((pin s)[index := v]) \<subseteq> insert v (set (pin s))"
    by (rule set_update_subset_insert)
  with assms show ?thesis
    unfolding pin_wf_def list_all_iff by auto
qed

lemma handleChange_wf:
  "pin_wf s \<and> index < 4 \<longrightarrow> pin_wf (handleChange index v outcome s)"
proof (cases "v = [] \<or> (length v = 1 \<and> list_all is_digit v)")
  case False
  then show ?thesis using handleChange_rejects[of v index outcome s] by simp
next
  case True
  show ?thesis
  proof (intro impI, elim conjE)
    assume wf: "pin_wf s" and i: "index < 4"
    let ?s1 = "s\<lparr>pin := (pin s)[index := v], error := []\<rparr>"
    from wf i True have wf1: "pin_wf ?s1" by (rule pin_wf_update)
    from wf i have len: "index < length (pin s)" by (simp add: pin_wf_def)
    have "handleChange index v outcome s = ?s1 \<or>
          handleChange index v outcome s = focus_input (length (pin s)) (index + 1) ?s1 \<or>
          handleChange index v outcome s = handleSubmit (concat ((pin s)[index := v])) outcome ?s1"
      using True len by (auto simp: handleChange_def array_set_def Let_def)
    with wf1 show "pin_wf (handleChange index v outcome s)"
      by (auto simp: pin_wf_focus pin_wf_handleSubmit)
  qed
qed

text \<open>
  Claim C6. The PIN modal collects four digits: an input that is not empty and not one
  digit is ignored and the four inputs stay empty or one digit each; a digit entered in
  one of the first three inputs is stored and \<open>focus()\<close> is called on the next input;
  Backspace on an empty input after the first calls \<open>focus()\<close> on the one before; a
  digit entered in the fourth input, the other three filled, calls \<open>makePayment\<close> with
  the four digits joined, with no submit action; and a submission of a value that is
  not four code units long sets the error and calls nothing.
\<close>

theorem pin_entry_four_digits:
  "(pin_wf s \<and> is_digit d \<and> index < 3 \<longrightarrow>
      handleChange index [d] outcome s
        = s\<lparr>pin := (pin s)[index := [d]], error := [], focusedInput := Some (index + 1)\<rparr>) \<and>
   (pin_wf s \<and> 0 < index \<and> index < 4 \<and> pin s ! index = [] \<longrightarrow>
      handleKeyDown index (js ''Backspace'') s = s\<lparr>focusedInput := Some (index - 1)\<rparr>) \<and>
   (is_digit d \<and> pin s = [[a], [b], [c], x] \<longrightarrow>
      paymentCalls (handleChange 3 [d] outcome s) = paymentCalls s @ [[a, b, c, d]]) \<and>
   (length pinValue \<noteq> 4 \<longrightarrow>
      handleSubmit pinValue outcome s = s\<lparr>error := js ''Please enter 4-digit PIN''\<rparr>) \<and>
   (\<not> (v = [] \<or> (length v = 1 \<and> list_all is_digit v)) \<longrightarrow> handleChange index v outcome s = s) \<and>
   (pin_wf s \<and> index < 4 \<longrightarrow> pin_wf (handleChange index v outcome s))"
  by (intro conjI handleChange_advance handleKeyDown_back handleChange_autosubmit
      handleSubmit_short handleChange_rejects handleChange_wf)

text \<open>The digits 1, 2, 3, 4 typed into the four inputs in turn, from the initial state.\<close>

definition typed_123 :: pin_state where
  "typed_123 =
     handleChange 2 (js ''3'') Throws
       (handleChange 1 (js ''2'') Throws (handleChange 0 (js ''1'') Throws pin_init))"

lemma typed_1_eq:
  "handleChange 0 (js ''1'') Throws pin_init
     = pin_init\<lparr>pin := [[49], [], [], []], focusedInput := Some 1\<rparr>"
  by (simp add: handleChange_def array_set_def focus_input_def pin_init_def js_def is_digit_def)

lemma typed_123_eq:
  "typed_123 = pin_init\<lparr>pin := [[49], [50], [51], []], focusedInput := Some 3\<rparr>"
  by (simp add: typed_123_def typed_1_eq)
    (simp add: handleChange_def array_set_def focus_input_def pin_init_def js_def is_digit_def)

theorem pin_entry_four_digits_witness:
  "pin_wf pin_init \<and> is_digit 49 \<and>
   handleChange 0 [49] (Responds True None None) pin_init
     = pin_init\<lparr>pin := (pin pin_init)[0 := [49]], error := [], focusedInput := Some (0 + 1)\<rparr> \<and>
   handleKeyDown 2 (js ''Backspace'') pin_init = pin_init\<lparr>focusedInput := Some (2 - 1)\<rparr> \<and>
   pin typed_123 = [[49], [50], [51], []] \<and>
   paymentCalls (handleChange 3 [52] (Responds True None None) typed_123) = [[49, 50, 51, 52]] \<and>
   handleSubmit (js ''123'') (Responds True None None) typed_123
     = typed_123\<lparr>error := js ''Please enter 4-digit PIN''\<rparr> \<and>
   handleChange 0 (js ''x'') (Responds True None None) pin_init = pin_init \<and>
   pin_wf (handleChange 3 [52] (Responds True None None) typed_123)"
proof -
  have wf0: "pin_wf pin_init"
    by (simp add: pin_wf_def pin_init_def)
  have wf3: "pin_wf typed_123"
    by (simp add: typed_123_eq pin_wf_def pin_init_def is_digit_def)
  have d: "is_digit 49" "is_digit 52" by (simp_all add: is_digit_def)
  have p3: "pin typed_123 = [[49], [50], [51], []]"
    by (simp add: typed_123_eq pin_init_def)
  have calls: "paymentCalls typed_123 = []" by (simp add: typed_123_eq pin_init_def)
  have e0: "pin pin_init ! 2 = []" by (simp add: pin_init_def)
  have nd: "\<not> (js ''x'' = [] \<or> (length (js ''x'') = 1 \<and> list_all is_digit (js ''x'')))"
    by (simp add: js_def is_digit_def)
  have j: "length (js ''123'') \<noteq> 4" by (simp add: js_def)
  note at0 = pin_entry_four_digits
    [of pin_init 49 0 "Responds True None None" 49 50 51 "[]" "js ''123''" "js ''x''"]
  note at2 = pin_entry_four_digits
    [of pin_init 49 2 "Responds True None None" 49 50 51 "[]" "js ''123''" "js ''x''"]
  note at3 = pin_entry_four_digits
    [of typed_123 52 3 "Responds True None None" 49 50 51 "[]" "js ''123''" "[52]"]
  have h1: "pin_wf pin_init \<and> is_digit 49 \<and> (0::nat) < 3" using wf0 d(1) by simp
  have c1: "handleChange 0 [49] (Responds True None None) pin_init
     = pin_init\<lparr>pin := (pin pin_init)[0 := [49]], error := [], focusedInput := Some (0 + 1)\<rparr>"
    by (rule mp [OF at0 [THEN conjunct1] h1])
  have h2: "pin_wf pin_init \<and> (0::nat) < 2 \<and> (2::nat) < 4 \<and> pin pin_init ! 2 = []"
    using wf0 e0 by simp
  have c2: "handleKeyDown 2 (js ''Backspace'') pin_init = pin_init\<lparr>focusedInput := Some (2 - 1)\<rparr>"
    by (rule mp [OF at2 [THEN conjunct2, THEN conjunct1] h2])
  have h3: "is_digit 52 \<and> pin typed_123 = [[49], [50], [51], []]" using d(2) p3 by simp
  have "paymentCalls (handleChange 3 [52] (Responds True None None) typed_123)
      = paymentCalls typed_123 @ [[49, 50, 51, 52]]"
    by (rule mp [OF at3 [THEN conjunct2, THEN conjunct2, THEN conjunct1] h3])
  then have c3: "paymentCalls (handleChange 3 [52] (Responds True None None) typed_123) = [[49, 50, 51, 52]]"
    by (simp only: calls append_Nil)
  have c4: "handleSubmit (js ''123'') (Responds True None None) typed_123
     = typed_123\<lparr>error := js ''Please enter 4-digit PIN''\<rparr>"
    by (rule mp [OF at3 [THEN conjunct2, THEN conjunct2, THEN conjunct2, THEN conjunct1] j])
  have c5: "handleChange 0 (js ''x'') (Responds True None None) pin_init = pin_init"
    by (rule mp [OF at0 [THEN conjunct2, THEN conjunct2, THEN conjunct2, THEN conjunct2, THEN conjunct1] nd])
  have h6: "pin_wf typed_123 \<and> (3::nat) < 4" using wf3 by simp
  have c6: "pin_wf (handleChange 3 [52] (Responds True None None) typed_123)"
    by (rule mp [OF at3 [THEN conjunct2, THEN conjunct2, THEN conjunct2, THEN conjunct2, THEN conjunct2] h6])
  from wf0 d(1) c1 c2 p3 c3 c4 c5 c6 show ?thesis by (intro conjI)
qed

subsection \<open>A payment that fails\<close>

lemma handleSubmit_failure:
  "length pinValue = 4 \<and> (outcome = Throws \<or> (\<exists>msg d. outcome = Responds False msg d)) \<longrightarrow>
     pin (handleSubmit pinValue outcome s) = [[], [], [], []] \<and>
     error (handleSubmit pinValue outcome s) \<noteq> [] \<and>
     paymentCalls (handleSubmit pinValue outcome s) = paymentCalls s @ [pinValue] \<and>
     onSuccessCalls (handleSubmit pinValue outcome s) = onSuccessCalls s \<and>
     \<not> loading (handleSubmit pinValue outcome s) \<and>
     focusedInput (handleSubmit pinValue outcome s) = focusedInput s"
  by (auto simp: handleSubmit_def focus_rendered_def message_or_default_def js_def Let_def
      split: option.splits if_splits)

lemma typed_123_submit:
  "handleChange 3 [52] outcome typed_123
     = handleSubmit [49, 50, 51, 52] outcome
         (pin_init\<lparr>pin := [[49], [50], [51], [52]], focusedInput := Some 3\<rparr>)"
  by (simp add: typed_123_eq)
    (simp add: handleChange_def array_set_def pin_init_def is_digit_def)

text \<open>
  Claim C2, on the code. The digits 1, 2, 3 are typed, then 4, and the payment comes
  back without success (a wrong PIN) or throws: the four inputs are emptied, an error is
  shown, exactly one payment call was made and \<open>onSuccess\<close> was not called, but the focus
  is not on the first input. The handler calls \<open>focus()\<close> on it while \<open>loading\<close> still
  disables every input, so the call moves nothing, and the last input the handlers gave
  the focus to is still the fourth.
\<close>

theorem handleSubmit_failure_focus:
  "pin (handleChange 3 [52] (Responds False (Some (js ''Invalid PIN'')) None) typed_123)
     = [[], [], [], []] \<and>
   error (handleChange 3 [52] (Responds False (Some (js ''Invalid PIN'')) None) typed_123)
     = js ''Invalid PIN'' \<and>
   paymentCalls (handleChange 3 [52] (Responds False (Some (js ''Invalid PIN'')) None) typed_123)
     = [[49, 50, 51, 52]] \<and>
   onSuccessCalls (handleChange 3 [52] (Responds False (Some (js ''Invalid PIN'')) None) typed_123)
     = [] \<and>
   \<not> loading (handleChange 3 [52] (Responds False (Some (js ''Invalid PIN'')) None) typed_123) \<and>
   focusedInput (handleChange 3 [52] (Responds False (Some (js ''Invalid PIN'')) None) typed_123)
     = Some 3 \<and>
   focusedInput (handleChange 3 [52] (Responds False (Some (js ''Invalid PIN'')) None) typed_123)
     \<noteq> Some 0 \<and>
   pin (handleChange 3 [52] Throws typed_123) = [[], [], [], []] \<and>
   paymentCalls (handleChange 3 [52] Throws typed_123) = [[49, 50, 51, 52]] \<and>
   focusedInput (handleChange 3 [52] Throws typed_123) = Some 3"
  unfolding typed_123_submit
  by (simp add: handleSubmit_def focus_rendered_def message_or_default_def js_def pin_init_def)

section \<open>Speech output service (speakWithElevenLabs, speakWithBrowserTTS)\<close>

text \<open>
  What the service meets outside the program: whether the API key is configured, how
  \<open>fetch\<close> answers (an exception, or a response with its status and whether its body
  can be read), whether \<open>window\<close> has \<open>speechSynthesis\<close>, and which event the audio
  element and the synthesis engine fire for what they were given to play. The
  service sets no timer of its own: when neither the end nor the error event is fired,
  no handler runs.
\<close>

datatype fetch_result = NetworkError | FetchResponse nat bool

datatype media_event = Ended | Errored | NeverFires

record tts_env =
  apiKey :: "jsstring option"
  fetchResult :: fetch_result
  audioEvent :: media_event
  synthSupported :: bool
  utteranceEvent :: media_event

text \<open>A promise at the end of the run: resolved, rejected, or settled by no handler.\<close>

datatype promise_result = Resolved | Rejected | Pending

text \<open>
  What \<open>VOICE_IDS[language] || VOICE_IDS.en\<close> evaluates to: one of the two identifiers
  of the table, or a property that the table inherits from \<open>Object.prototype\<close> under
  the name \<open>language\<close> (each of them a function or an object, hence truthy).
\<close>

datatype voice_ref = VoiceId jsstring | InheritedProperty jsstring

text \<open>What a call does: the request to the remote service, audio playback, an utterance.\<close>

datatype tts_effect =
    RemoteRequest voice_ref jsstring
  | PlayAudio
  | Utterance jsstring string

definition response_ok :: "nat \<Rightarrow> bool" where
  "response_ok status = (200 \<le> status \<and> status \<le> 299)"

definition object_prototype_keys :: "string list" where
  "object_prototype_keys =
     [''constructor'', ''hasOwnProperty'', ''isPrototypeOf'', ''propertyIsEnumerable'',
      ''toLocaleString'', ''toString'', ''valueOf'', ''__proto__'', ''__defineGetter__'',
      ''__defineSetter__'', ''__lookupGetter__'', ''__lookupSetter__'']"

definition voice_id :: "jsstring \<Rightarrow> voice_ref" where
  "voice_id language =
     (if language = js ''en'' then VoiceId (js ''EXAVITQu4vr4xnSDxMaL'')
      else if language = js ''hi'' then VoiceId (js ''jsCqWAovK2LkecY7zXl4'')
      else if language \<in> set (map js object_prototype_keys) then InheritedProperty language
      else VoiceId (js ''EXAVITQu4vr4xnSDxMaL''))"

text \<open>\<open>utterance.lang = language === 'hi' ? 'hi-IN' : 'en-US'\<close>.\<close>

definition utterance_lang :: "jsstring \<Rightarrow> string" where
  "utterance_lang language = (if language = js ''hi'' then ''hi-IN'' else ''en-US'')"

text \<open>
  \<open>speakWithBrowserTTS\<close>: the promise is rejected at once without \<open>speechSynthesis\<close>;
  otherwise the utterance is handed over, and the promise is settled by the handler of
  the event that the engine fires, if it fires one.
\<close>

definition speakWithBrowserTTS ::
  "tts_env \<Rightarrow> jsstring \<Rightarrow> jsstring \<Rightarrow> promise_result \<times> tts_effect list" where
  "speakWithBrowserTTS env txt language =
     (if \<not> synthSupported env then (Rejected, [])
      else
        (case utteranceEvent env of
           Ended \<Rightarrow> (Resolved, [Utterance txt (utterance_lang language)])
         | Errored \<Rightarrow> (Rejected, [Utterance txt (utterance_lang language)])
         | NeverFires \<Rightarrow> (Pending, [Utterance txt (utterance_lang language)])))"

text \<open>An API key that is undefined or empty is falsy.\<close>

definition key_configured :: "tts_env \<Rightarrow> bool" where
  "key_configured env = (case apiKey env of None \<Rightarrow> False | Some k \<Rightarrow> k \<noteq> [])"

definition after_effects ::
  "tts_effect list \<Rightarrow> promise_result \<times> tts_effect list \<Rightarrow> promise_result \<times> tts_effect list" where
  "after_effects es r = (fst r, es @ snd r)"

definition speakWithElevenLabs ::
  "tts_env \<Rightarrow> jsstring \<Rightarrow> jsstring \<Rightarrow> promise_result \<times> tts_effect list" where
  "speakWithElevenLabs env txt language =
     (if \<not> key_configured env then speakWithBrowserTTS env txt language
      else
        let request = RemoteRequest (voice_id language) txt in
        (case fetchResult env of
           NetworkError \<Rightarrow> after_effects [request] (speakWithBrowserTTS env txt language)
         | FetchResponse status readable \<Rightarrow>
             if \<not> response_ok status then
               after_effects [request] (speakWithBrowserTTS env txt language)
             else if \<not> readable then
               after_effects [request] (speakWithBrowserTTS env txt language)
             else
               (case audioEvent env of
                  Ended \<Rightarrow> (Resolved, [request, PlayAudio])
                | Errored \<Rightarrow> (Rejected, [request, PlayAudio])
                | NeverFires \<Rightarrow> (Pending, [request, PlayAudio]))))"

text \<open>
  The remote call fails: no key, an exception of \<open>fetch\<close>, a status outside 2xx, or a
  body that cannot be read.
\<close>

definition remote_fails :: "tts_env \<Rightarrow> bool" where
  "remote_fails env =
     (\<not> key_configured env \<or> fetchResult env = NetworkError \<or>
      (\<exists>status readable. fetchResult env = FetchResponse status readable \<and>
         (\<not> response_ok status \<or> \<not> readable)))"

fun is_utterance :: "tts_effect \<Rightarrow> bool" where
  "is_utterance (Utterance t l) = True"
| "is_utterance e = False"

lemma speakWithBrowserTTS_result:
  "snd (speakWithBrowserTTS env txt language)
     = (if synthSupported env
        then [Utterance txt (if language = js ''hi'' then ''hi-IN'' else ''en-US'')] else [])"
  "fst (speakWithBrowserTTS env txt language) = Resolved
     \<longleftrightarrow> synthSupported env \<and> utteranceEvent env = Ended"
  "fst (speakWithBrowserTTS env txt language) = Rejected
     \<longleftrightarrow> \<not> synthSupported env \<or> utteranceEvent env = Errored"
  "fst (speakWithBrowserTTS env txt language) = Pending
     \<longleftrightarrow> synthSupported env \<and> utteranceEvent env = NeverFires"
  by (auto simp: speakWithBrowserTTS_def utterance_lang_def split: media_event.splits)

lemma remote_fails_fallback:
  "remote_fails env \<Longrightarrow>
     speakWithElevenLabs env txt language = speakWithBrowserTTS env txt language \<or>
     speakWithElevenLabs env txt language
       = after_effects [RemoteRequest (voice_id language) txt] (speakWithBrowserTTS env txt language)"
  by (auto simp: remote_fails_def speakWithElevenLabs_def Let_def split: fetch_result.splits)

text \<open>
  Claim C7, as amended. When the remote call fails (no API key, a response outside 2xx
  or with an unreadable body, a network error), the promise returned is the promise of the browser fallback and
  nothing is played from the remote service. Where the browser has speech synthesis
  the fallback speaks exactly one utterance, of the text, with the locale \<open>hi-IN\<close> for
  the language \<open>hi\<close> and \<open>en-US\<close> for every other; where it has none, nothing is spoken and
  the promise is rejected. The promise is resolved exactly when the utterance ends,
  rejected exactly when it errors or there is no speech synthesis, and it stays pending
  exactly when the engine fires neither event for the utterance.
\<close>

theorem speakWithElevenLabs_fallback:
  "remote_fails env \<longrightarrow>
     fst (speakWithElevenLabs env txt language) = fst (speakWithBrowserTTS env txt language) \<and>
     PlayAudio \<notin> set (snd (speakWithElevenLabs env txt language)) \<and>
     filter is_utterance (snd (speakWithElevenLabs env txt language))
       = (if synthSupported env
          then [Utterance txt (if language = js ''hi'' then ''hi-IN'' else ''en-US'')] else []) \<and>
     (fst (speakWithElevenLabs env txt language) = Resolved
        \<longleftrightarrow> synthSupported env \<and> utteranceEvent env = Ended) \<and>
     (fst (speakWithElevenLabs env txt language) = Rejected
        \<longleftrightarrow> \<not> synthSupported env \<or> utteranceEvent env = Errored) \<and>
     (fst (speakWithElevenLabs env txt language) = Pending
        \<longleftrightarrow> synthSupported env \<and> utteranceEvent env = NeverFires)"
proof
  assume f: "remote_fails env"
  note browser = speakWithBrowserTTS_result [of env "txt" language]
  from remote_fails_fallback [OF f, of "txt" language]
  show "fst (speakWithElevenLabs env txt language) = fst (speakWithBrowserTTS env txt language) \<and>
     PlayAudio \<notin> set (snd (speakWithElevenLabs env txt language)) \<and>
     filter is_utterance (snd (speakWithElevenLabs env txt language))
       = (if synthSupported env
          then [Utterance txt (if language = js ''hi'' then ''hi-IN'' else ''en-US'')] else []) \<and>
     (fst (speakWithElevenLabs env txt language) = Resolved
        \<longleftrightarrow> synthSupported env \<and> utteranceEvent env = Ended) \<and>
     (fst (speakWithElevenLabs env txt language) = Rejected
        \<longleftrightarrow> \<not> synthSupported env \<or> utteranceEvent env = Errored) \<and>
     (fst (speakWithElevenLabs env txt language) = Pending
        \<longleftrightarrow> synthSupported env \<and> utteranceEvent env = NeverFires)"
  proof
    assume e: "speakWithElevenLabs env txt language = speakWithBrowserTTS env txt language"
    show ?thesis unfolding e using browser by simp
  next
    assume e: "speakWithElevenLabs env txt language
        = after_effects [RemoteRequest (voice_id language) txt] (speakWithBrowserTTS env txt language)"
    show ?thesis unfolding e using browser by (simp add: after_effects_def)
  qed
qed

definition env_bad_status :: tts_env where
  "env_bad_status =
     \<lparr>apiKey = Some (js ''sk_test''), fetchResult = FetchResponse 500 True, audioEvent = Ended,
      synthSupported = True, utteranceEvent = Ended\<rparr>"

lemma remote_fails_bad_status: "remote_fails (env_bad_status\<lparr>synthSupported := a, utteranceEvent := b\<rparr>)"
proof -
  have "fetchResult (env_bad_status\<lparr>synthSupported := a, utteranceEvent := b\<rparr>) = FetchResponse 500 True
      \<and> \<not> response_ok 500"
    by (simp add: env_bad_status_def response_ok_def)
  then show ?thesis unfolding remote_fails_def by blast
qed

theorem speakWithElevenLabs_fallback_witness:
  "remote_fails env_bad_status \<and> synthSupported env_bad_status \<and>
   fst (speakWithElevenLabs env_bad_status (js ''Namaste'') (js ''hi'')) = Resolved \<and>
   filter is_utterance (snd (speakWithElevenLabs env_bad_status (js ''Namaste'') (js ''hi'')))
     = [Utterance (js ''Namaste'') ''hi-IN''] \<and>
   filter is_utterance (snd (speakWithElevenLabs env_bad_status (js ''Hello'') (js ''en'')))
     = [Utterance (js ''Hello'') ''en-US'']"
proof -
  have f: "remote_fails env_bad_status"
    using remote_fails_bad_status [where a = True and b = Ended] by (simp add: env_bad_status_def)
  have s: "synthSupported env_bad_status" and u: "utteranceEvent env_bad_status = Ended"
    by (simp_all add: env_bad_status_def)
  note t = mp [OF speakWithElevenLabs_fallback [of env_bad_status "js ''Namaste''" "js ''hi''"] f]
  note t2 = mp [OF speakWithElevenLabs_fallback [of env_bad_status "js ''Hello''" "js ''en''"] f]
  from t s u have r: "fst (speakWithElevenLabs env_bad_status (js ''Namaste'') (js ''hi'')) = Resolved"
    by blast
  from t s have v: "filter is_utterance (snd (speakWithElevenLabs env_bad_status (js ''Namaste'') (js ''hi'')))
     = [Utterance (js ''Namaste'') ''hi-IN'']"
    by simp
  have ne: "js ''en'' \<noteq> js ''hi''" by (simp add: js_def)
  from t2 s ne have w: "filter is_utterance (snd (speakWithElevenLabs env_bad_status (js ''Hello'') (js ''en'')))
     = [Utterance (js ''Hello'') ''en-US'']"
    by simp
  from f s r v w show ?thesis by (intro conjI)
qed

text \<open>
  The claim as written fails where the engine accepts the utterance and fires neither
  event: the remote call has failed, the fallback has spoken, and the promise is never
  settled. And in a browser without speech synthesis the fallback speaks nothing.
\<close>

theorem speakWithElevenLabs_hangs_counterexample:
  "remote_fails (env_bad_status\<lparr>synthSupported := True, utteranceEvent := NeverFires\<rparr>) \<and>
   speakWithElevenLabs (env_bad_status\<lparr>synthSupported := True, utteranceEvent := NeverFires\<rparr>)
       (js ''Namaste'') (js ''hi'')
     = (Pending, [RemoteRequest (VoiceId (js ''jsCqWAovK2LkecY7zXl4'')) (js ''Namaste''),
                  Utterance (js ''Namaste'') ''hi-IN'']) \<and>
   remote_fails (env_bad_status\<lparr>synthSupported := False, utteranceEvent := Ended\<rparr>) \<and>
   speakWithElevenLabs (env_bad_status\<lparr>synthSupported := False, utteranceEvent := Ended\<rparr>)
       (js ''Namaste'') (js ''hi'')
     = (Rejected, [RemoteRequest (VoiceId (js ''jsCqWAovK2LkecY7zXl4'')) (js ''Namaste'')])"
proof -
  have v: "voice_id (js ''hi'') = VoiceId (js ''jsCqWAovK2LkecY7zXl4'')"
    by (simp add: voice_id_def js_def)
  have l: "utterance_lang (js ''hi'') = ''hi-IN''" by (simp add: utterance_lang_def)
  have k: "js ''sk_test'' \<noteq> []" by (simp add: js_def)
  have a: "speakWithElevenLabs (env_bad_status\<lparr>synthSupported := True, utteranceEvent := NeverFires\<rparr>)
       (js ''Namaste'') (js ''hi'')
     = (Pending, [RemoteRequest (VoiceId (js ''jsCqWAovK2LkecY7zXl4'')) (js ''Namaste''),
                  Utterance (js ''Namaste'') ''hi-IN''])"
    by (simp add: speakWithElevenLabs_def speakWithBrowserTTS_def key_configured_def
        env_bad_status_def response_ok_def after_effects_def v l k)
  have b: "speakWithElevenLabs (env_bad_status\<lparr>synthSupported := False, utteranceEvent := Ended\<rparr>)
       (js ''Namaste'') (js ''hi'')
     = (Rejected, [RemoteRequest (VoiceId (js ''jsCqWAovK2LkecY7zXl4'')) (js ''Namaste'')])"
    by (simp add: speakWithElevenLabs_def speakWithBrowserTTS_def key_configured_def
        env_bad_status_def response_ok_def after_effects_def v k)
  from remote_fails_bad_status [where a = True and b = NeverFires] a remote_fails_bad_status [where a = False and b = Ended] b
  show ?thesis by (intro conjI)
qed

section \<open>Voice capture and the command cycle (VoiceInterface.jsx)\<close>

text \<open>
  \<open>VoiceInterface\<close> is a function component: a handler reads the values of
  \<open>isListening\<close> and \<open>showTextInput\<close> that the render which created it captured, and
  writes the hooks through their setters. A handler therefore takes the captured
  values as \<open>voice_flags\<close>; a handler started from the current render gets
  \<open>current_flags\<close> of the state, a callback kept by a timer keeps the flags of the
  render that created it.
\<close>

record voice_flags =
  f_isListening :: bool
  f_showTextInput :: bool

text \<open>
  An utterance given to \<open>synth.speak\<close>: the value its constructor was given as text,
  and the voice and locale if one was set.
\<close>

record utterance =
  utt_text :: jsvalue
  utt_voice :: "jsstring option"
  utt_lang :: "string option"

text \<open>
  The hooks and refs of the component and what its handlers do outside them:
  \<open>micRequests\<close> counts the calls of \<open>getUserMedia\<close> that \<open>toggleListening\<close> awaits,
  \<open>recorderRecording\<close> says that \<open>mediaRecorderRef.current\<close> is a recorder in state
  \<open>recording\<close>, \<open>activeRecorders\<close> counts the recorders in that state,
  \<open>transcribing\<close> the recordings stopped whose transcription has not come back,
  \<open>timers\<close> the pending \<open>setTimeout\<close> callbacks (delay and captured flags; every
  callback of the source is \<open>startListening\<close>), \<open>spoken\<close> the utterances given to the
  synthesis, \<open>apiCalls\<close> the calls of \<open>processVoiceCommand\<close> (text and language) and
  \<open>responsesOut\<close> the responses handed to \<open>onResponse\<close>. An entry of
  \<open>commandHistory\<close> is the value stored as its text and its type.
\<close>

record voice_state =
  isListening :: bool
  transcript :: jsstring
  isSpeaking :: bool
  commandHistory :: "(jsvalue \<times> string) list"
  showTextInput :: bool
  selectedEn :: "jsstring option"
  selectedHi :: "jsstring option"
  micRequests :: nat
  recorderRecording :: bool
  activeRecorders :: nat
  transcribing :: nat
  timers :: "(nat \<times> voice_flags) list"
  spoken :: "utterance list"
  apiCalls :: "(jsstring \<times> string) list"
  responsesOut :: "response list"

definition current_flags :: "voice_state \<Rightarrow> voice_flags" where
  "current_flags s = \<lparr>f_isListening = isListening s, f_showTextInput = showTextInput s\<rparr>"

datatype mic_result = MicGranted | MicDenied

text \<open>
  \<open>toggleListening\<close> up to its \<open>await\<close>. The stop branch is one step, in which the
  \<open>stop\<close> event of the recorder (which begins \<open>transcribeAudio\<close> and shows
  \<open>Transcribing...\<close>) is taken too. The start branch clears the transcript and calls
  \<open>getUserMedia\<close>; nothing else happens until that call is answered, and
  \<open>isListening\<close> stays false meanwhile.
\<close>

definition toggleListening :: "voice_flags \<Rightarrow> voice_state \<Rightarrow> voice_state" where
  "toggleListening fl s =
     (if f_isListening fl then
        (if recorderRecording s
         then s\<lparr>recorderRecording := False, activeRecorders := activeRecorders s - 1,
                 transcribing := transcribing s + 1, transcript := js ''Transcribing...'',
                 isListening := False\<rparr>
         else s\<lparr>isListening := False\<rparr>)
      else s\<lparr>transcript := [], micRequests := micRequests s + 1\<rparr>)"

text \<open>
  The rest of the start branch, run when a pending \<open>getUserMedia\<close> is answered: with a
  stream, a new recorder is put into \<open>mediaRecorderRef\<close> and started and
  \<open>isListening\<close> is set; with an exception, the \<open>catch\<close> block shows the error and
  the text input. The recorder that the ref held before is neither stopped nor kept.
\<close>

definition toggleListening_resume :: "mic_result \<Rightarrow> voice_state \<Rightarrow> voice_state" where
  "toggleListening_resume mic s =
     (if micRequests s = 0 then s
      else
        (case mic of
           MicGranted \<Rightarrow>
             s\<lparr>micRequests := micRequests s - 1, recorderRecording := True,
               activeRecorders := activeRecorders s + 1, isListening := True\<rparr>
         | MicDenied \<Rightarrow>
             s\<lparr>micRequests := micRequests s - 1,
               commandHistory := commandHistory s @
                 [(JStr (js ''Could not access microphone. Please check permissions or use text input.''),
                   ''error'')],
               showTextInput := True\<rparr>))"

definition startListening :: "voice_flags \<Rightarrow> voice_state \<Rightarrow> voice_state" where
  "startListening fl s =
     (if \<not> f_isListening fl \<and> \<not> f_showTextInput fl then toggleListening fl s else s)"

text \<open>
  The oldest pending timer fires (all delays of the source are equal); no handler of the
  component removes a timer before it fires.
\<close>

definition fire_timer :: "voice_state \<Rightarrow> voice_state" where
  "fire_timer s =
     (case timers s of
        [] \<Rightarrow> s
      | (delay, fl) # rest \<Rightarrow> startListening fl (s\<lparr>timers := rest\<rparr>))"

text \<open>
  \<open>speak\<close>: how the synthesis goes is an input. Either the set-up throws (no
  \<open>speechSynthesis\<close>, no \<open>SpeechSynthesisUtterance\<close>, or \<open>synth.speak\<close> throws), or
  the utterance is handed over and the engine fires \<open>end\<close>, fires \<open>error\<close>, or fires
  neither; the promise is resolved in the two event handlers and in the \<open>catch\<close>
  block, and nowhere else.
\<close>

datatype synth_run = SetupThrows | FiresEnd | FiresError | FiresNothing

text \<open>
  The test of \<open>text\<close> against the Devanagari range converts its argument to a string; the string of a
  value that is not a string (\<open>undefined\<close>, \<open>null\<close>, \<open>true\<close>, \<open>false\<close>, the digits of a
  number) has no Devanagari code unit.
\<close>

definition isHindi :: "jsvalue \<Rightarrow> bool" where
  "isHindi v = (case v of JStr t \<Rightarrow> list_ex is_devanagari t | _ \<Rightarrow> False)"

definition make_utterance :: "jsvalue \<Rightarrow> voice_state \<Rightarrow> utterance" where
  "make_utterance txt s =
     (if isHindi txt \<and> selectedHi s \<noteq> None
      then \<lparr>utt_text = txt, utt_voice = selectedHi s, utt_lang = Some ''hi-IN''\<rparr>
      else if selectedEn s \<noteq> None
      then \<lparr>utt_text = txt, utt_voice = selectedEn s, utt_lang = Some ''en-US''\<rparr>
      else \<lparr>utt_text = txt, utt_voice = None, utt_lang = None\<rparr>)"

definition speak :: "synth_run \<Rightarrow> jsvalue \<Rightarrow> voice_state \<Rightarrow> promise_result \<times> voice_state" where
  "speak run txt s =
     (let s1 = s\<lparr>isSpeaking := True\<rparr> in
      case run of
        SetupThrows \<Rightarrow> (Resolved, s1\<lparr>isSpeaking := False\<rparr>)
      | FiresEnd \<Rightarrow>
          (Resolved, s1\<lparr>spoken := spoken s1 @ [make_utterance txt s1], isSpeaking := False\<rparr>)
      | FiresError \<Rightarrow>
          (Resolved, s1\<lparr>spoken := spoken s1 @ [make_utterance txt s1], isSpeaking := False\<rparr>)
      | FiresNothing \<Rightarrow>
          (Pending, s1\<lparr>spoken := spoken s1 @ [make_utterance txt s1]\<rparr>))"

text \<open>\<open>message.includes(p)\<close> and \<open>message.endsWith('?')\<close>.\<close>

fun js_includes :: "jsstring \<Rightarrow> jsstring \<Rightarrow> bool" where
  "js_includes m [] = True"
| "js_includes [] (p # ps) = False"
| "js_includes (c # cs) (p # ps) = (take (length (p # ps)) (c # cs) = p # ps \<or> js_includes cs (p # ps))"

definition ends_with_question :: "jsstring \<Rightarrow> bool" where
  "ends_with_question m = (m \<noteq> [] \<and> last m = 63)"

definition needsVoiceInput :: "jsstring \<Rightarrow> bool" where
  "needsVoiceInput msg =
     (let m = toLowerCase msg in
        js_includes m (js ''phone number'') \<or>
        js_includes m (js ''say the'') \<or>
        js_includes m (js ''tell me'') \<or>
        js_includes m (js ''please tell'') \<or>
        js_includes m (js ''10-digit'') \<or>
        js_includes m (js ''is this correct'') \<or>
        js_includes m (js ''say yes or no'') \<or>
        js_includes m (js ''would you like to add'') \<or>
        ends_with_question m)"

datatype api_outcome = ApiResponse response | ApiError

definition errorMsg :: jsstring where
  "errorMsg = js ''Sorry, I encountered an error. Please try again.''"

text \<open>
  The \<open>catch\<close> block of \<open>handleVoiceCommand\<close>: the error message is shown and spoken.
  The promise of the handler is the one of this last \<open>await\<close>.
\<close>

definition handleVoiceCommand_catch :: "synth_run \<Rightarrow> voice_state \<Rightarrow> promise_result \<times> voice_state" where
  "handleVoiceCommand_catch run s =
     speak run (JStr errorMsg)
       (s\<lparr>commandHistory := commandHistory s @ [(JStr errorMsg, ''error'')]\<rparr>)"

text \<open>
  \<open>handleVoiceCommand(text, detectedLang)\<close>; the answer of \<open>processVoiceCommand\<close> and
  the runs of the synthesis are inputs, \<open>run\<close> for the first call of \<open>speak\<close> and
  \<open>run2\<close> for a second one. The handler awaits \<open>speak(response.message)\<close>: while that
  promise is pending nothing after it runs. After it, \<open>response.message.toLowerCase()\<close>
  throws for a message that is not a string, which leads into the \<open>catch\<close> block; for a
  string the timer is set if the message asks for an answer, and the response is handed
  to \<open>onResponse\<close>, which the voice modal always provides.
\<close>

definition handleVoiceCommand ::
  "voice_flags \<Rightarrow> jsstring \<Rightarrow> string option \<Rightarrow> api_outcome \<Rightarrow> synth_run \<Rightarrow> synth_run \<Rightarrow>
     voice_state \<Rightarrow> promise_result \<times> voice_state" where
  "handleVoiceCommand fl txt detectedLang api run run2 s =
     (let s1 = s\<lparr>commandHistory := commandHistory s @ [(JStr txt, ''user'')]\<rparr>;
          language = (case detectedLang of
                        None \<Rightarrow> detectLanguage txt
                      | Some l \<Rightarrow> if l \<noteq> [] then l else detectLanguage txt);
          s2 = s1\<lparr>apiCalls := apiCalls s1 @ [(txt, language)]\<rparr>
      in case api of
           ApiResponse r \<Rightarrow>
             let s3 = s2\<lparr>commandHistory := commandHistory s2 @ [(message r, ''assistant'')]\<rparr>;
                 spoke = speak run (message r) s3;
                 s4 = snd spoke
             in (case fst spoke of
                   Pending \<Rightarrow> (Pending, s4)
                 | Rejected \<Rightarrow> handleVoiceCommand_catch run2 s4
                 | Resolved \<Rightarrow>
                     (case message r of
                        JStr m \<Rightarrow>
                          let s5 = (if needsVoiceInput m
                                    then s4\<lparr>timers := timers s4 @ [(500, fl)]\<rparr> else s4)
                          in (Resolved, s5\<lparr>responsesOut := responsesOut s5 @ [r]\<rparr>)
                      | _ \<Rightarrow> handleVoiceCommand_catch run2 s4))
         | ApiError \<Rightarrow> handleVoiceCommand_catch run s2)"

text \<open>The states of the capture: recording, transcribing (a stopped recording awaits its text), idle.\<close>

datatype capture_phase = Idle | Recording | Transcribing

definition phase :: "voice_state \<Rightarrow> capture_phase" where
  "phase s = (if isListening s then Recording else if transcribing s > 0 then Transcribing else Idle)"

definition voice_init :: voice_state where
  "voice_init =
     \<lparr>isListening = False, transcript = [], isSpeaking = False, commandHistory = [],
      showTextInput = False, selectedEn = Some (js ''Daniel''), selectedHi = None,
      micRequests = 0, recorderRecording = False, activeRecorders = 0, transcribing = 0,
      timers = [], spoken = [], apiCalls = [], responsesOut = []\<rparr>"


subsection \<open>The promise of speak\<close>

lemma speak_result:
  "fst (speak run t u) \<noteq> Rejected"
  "fst (speak run t u) = Resolved \<longleftrightarrow> run \<noteq> FiresNothing"
  "fst (speak run t u) = Pending \<longleftrightarrow> run = FiresNothing"
  "isSpeaking (snd (speak run t u)) \<longleftrightarrow> run = FiresNothing"
  by (cases run, simp_all add: speak_def Let_def)+

lemma speak_keeps:
  "responsesOut (snd (speak run t u)) = responsesOut u"
  "timers (snd (speak run t u)) = timers u"
  "commandHistory (snd (speak run t u)) = commandHistory u"
  by (cases run, simp_all add: speak_def Let_def)+

lemma catch_result:
  "fst (handleVoiceCommand_catch run u) = Resolved \<longleftrightarrow> run \<noteq> FiresNothing"
  "isSpeaking (snd (handleVoiceCommand_catch run u)) \<longleftrightarrow> run = FiresNothing"
  "responsesOut (snd (handleVoiceCommand_catch run u)) = responsesOut u"
  "timers (snd (handleVoiceCommand_catch run u)) = timers u"
  "commandHistory (snd (handleVoiceCommand_catch run u))
     = commandHistory u @ [(JStr errorMsg, ''error'')]"
  by (simp_all add: handleVoiceCommand_catch_def speak_result speak_keeps)

lemma command_text_message:
  assumes "run \<noteq> FiresNothing" "message r = JStr m"
  shows "fst (handleVoiceCommand fl cmd lang (ApiResponse r) run run2 s) = Resolved"
    and "\<not> isSpeaking (snd (handleVoiceCommand fl cmd lang (ApiResponse r) run run2 s))"
    and "responsesOut (snd (handleVoiceCommand fl cmd lang (ApiResponse r) run run2 s))
           = responsesOut s @ [r]"
    and "timers (snd (handleVoiceCommand fl cmd lang (ApiResponse r) run run2 s))
           = timers s @ (if needsVoiceInput m then [(500, fl)] else [])"
    and "commandHistory (snd (handleVoiceCommand fl cmd lang (ApiResponse r) run run2 s))
           = commandHistory s @ [(JStr cmd, ''user''), (JStr m, ''assistant'')]"
proof -
  from assms(1) have r: "\<And>t u. fst (speak run t u) = Resolved"
    by (simp add: speak_result)
  from assms(1) have i: "\<And>t u. \<not> isSpeaking (snd (speak run t u))"
    by (simp add: speak_result)
  show "fst (handleVoiceCommand fl cmd lang (ApiResponse r) run run2 s) = Resolved"
    by (simp add: handleVoiceCommand_def Let_def r assms(2))
  show "\<not> isSpeaking (snd (handleVoiceCommand fl cmd lang (ApiResponse r) run run2 s))"
    by (simp add: handleVoiceCommand_def Let_def r i assms(2))
  show "responsesOut (snd (handleVoiceCommand fl cmd lang (ApiResponse r) run run2 s))
           = responsesOut s @ [r]"
    by (simp add: handleVoiceCommand_def Let_def r speak_keeps assms(2))
  show "timers (snd (handleVoiceCommand fl cmd lang (ApiResponse r) run run2 s))
           = timers s @ (if needsVoiceInput m then [(500, fl)] else [])"
    by (simp add: handleVoiceCommand_def Let_def r speak_keeps assms(2))
  show "commandHistory (snd (handleVoiceCommand fl cmd lang (ApiResponse r) run run2 s))
           = commandHistory s @ [(JStr cmd, ''user''), (JStr m, ''assistant'')]"
    by (simp add: handleVoiceCommand_def Let_def r speak_keeps assms(2))
qed

lemma command_other_message:
  assumes "run \<noteq> FiresNothing" "\<forall>m. message r \<noteq> JStr m"
  shows "commandHistory (snd (handleVoiceCommand fl cmd lang (ApiResponse r) run run2 s))
           = commandHistory s @
               [(JStr cmd, ''user''), (message r, ''assistant''), (JStr errorMsg, ''error'')]"
    and "responsesOut (snd (handleVoiceCommand fl cmd lang (ApiResponse r) run run2 s))
           = responsesOut s"
    and "timers (snd (handleVoiceCommand fl cmd lang (ApiResponse r) run run2 s)) = timers s"
proof -
  from assms(1) have r: "\<And>t u. fst (speak run t u) = Resolved"
    by (simp add: speak_result)
  have e: "handleVoiceCommand fl cmd lang (ApiResponse r) run run2 s
      = handleVoiceCommand_catch run2
          (snd (speak run (message r)
             (s\<lparr>apiCalls := apiCalls s @
                  [(cmd, case lang of None \<Rightarrow> detectLanguage cmd
                         | Some l \<Rightarrow> if l \<noteq> [] then l else detectLanguage cmd)],
                commandHistory := commandHistory s @ [(JStr cmd, ''user''), (message r, ''assistant'')]\<rparr>)))"
    using assms(2) by (cases "message r") (simp_all add: handleVoiceCommand_def Let_def r)
  show "commandHistory (snd (handleVoiceCommand fl cmd lang (ApiResponse r) run run2 s))
           = commandHistory s @
               [(JStr cmd, ''user''), (message r, ''assistant''), (JStr errorMsg, ''error'')]"
    unfolding e by (simp add: catch_result speak_keeps)
  show "responsesOut (snd (handleVoiceCommand fl cmd lang (ApiResponse r) run run2 s))
           = responsesOut s"
    unfolding e by (simp add: catch_result speak_keeps)
  show "timers (snd (handleVoiceCommand fl cmd lang (ApiResponse r) run run2 s)) = timers s"
    unfolding e by (simp add: catch_result speak_keeps)
qed

lemma command_error:
  "fst (handleVoiceCommand fl cmd lang ApiError run run2 s) = Resolved \<longleftrightarrow> run \<noteq> FiresNothing"
  "isSpeaking (snd (handleVoiceCommand fl cmd lang ApiError run run2 s)) \<longleftrightarrow> run = FiresNothing"
  "timers (snd (handleVoiceCommand fl cmd lang ApiError run run2 s)) = timers s"
  by (simp_all add: handleVoiceCommand_def Let_def catch_result)

lemma command_pending:
  "fst (handleVoiceCommand fl cmd lang api FiresNothing run2 s) = Pending"
  "isSpeaking (snd (handleVoiceCommand fl cmd lang api FiresNothing run2 s))"
  "responsesOut (snd (handleVoiceCommand fl cmd lang api FiresNothing run2 s)) = responsesOut s"
  "timers (snd (handleVoiceCommand fl cmd lang api FiresNothing run2 s)) = timers s"
proof -
  have p: "\<And>t u. fst (speak FiresNothing t u) = Pending" by (simp add: speak_result)
  show "fst (handleVoiceCommand fl cmd lang api FiresNothing run2 s) = Pending"
    by (cases api) (simp_all add: handleVoiceCommand_def handleVoiceCommand_catch_def Let_def p)
  show "isSpeaking (snd (handleVoiceCommand fl cmd lang api FiresNothing run2 s))"
    by (cases api)
      (simp_all add: handleVoiceCommand_def handleVoiceCommand_catch_def Let_def p speak_result)
  show "responsesOut (snd (handleVoiceCommand fl cmd lang api FiresNothing run2 s)) = responsesOut s"
    by (cases api)
      (simp_all add: handleVoiceCommand_def handleVoiceCommand_catch_def Let_def p speak_keeps)
  show "timers (snd (handleVoiceCommand fl cmd lang api FiresNothing run2 s)) = timers s"
    by (cases api)
      (simp_all add: handleVoiceCommand_def handleVoiceCommand_catch_def Let_def p speak_keeps)
qed

text \<open>
  Claim C10, as amended. \<open>speak\<close> never rejects. When the synthesis ends, fires an
  error or the set-up throws, the promise resolves and \<open>isSpeaking\<close> is false
  afterwards, and the command cycle that awaits it goes past the speech step: a response
  with a text message is handed to \<open>onResponse\<close>, one whose message is not a string
  ends in the error branch, and a failed command finishes. When the engine takes the
  utterance and fires neither event, the promise stays pending, \<open>isSpeaking\<close> stays
  true and the cycle stops at the speech step: no response is handed on and no timer is
  set.
\<close>

theorem speak_never_rejects:
  "fst (speak run t s) \<noteq> Rejected \<and>
   (fst (speak run t s) = Resolved \<longleftrightarrow> run \<noteq> FiresNothing) \<and>
   (fst (speak run t s) = Pending \<longleftrightarrow> run = FiresNothing) \<and>
   (isSpeaking (snd (speak run t s)) \<longleftrightarrow> run = FiresNothing) \<and>
   (run \<noteq> FiresNothing \<and> message r = JStr m \<longrightarrow>
      fst (handleVoiceCommand fl cmd lang (ApiResponse r) run run2 s) = Resolved \<and>
      \<not> isSpeaking (snd (handleVoiceCommand fl cmd lang (ApiResponse r) run run2 s)) \<and>
      responsesOut (snd (handleVoiceCommand fl cmd lang (ApiResponse r) run run2 s))
        = responsesOut s @ [r]) \<and>
   (run \<noteq> FiresNothing \<and> (\<forall>m. message r \<noteq> JStr m) \<longrightarrow>
      commandHistory (snd (handleVoiceCommand fl cmd lang (ApiResponse r) run run2 s))
        = commandHistory s @
            [(JStr cmd, ''user''), (message r, ''assistant''), (JStr errorMsg, ''error'')] \<and>
      responsesOut (snd (handleVoiceCommand fl cmd lang (ApiResponse r) run run2 s))
        = responsesOut s) \<and>
   (run \<noteq> FiresNothing \<longrightarrow>
      fst (handleVoiceCommand fl cmd lang ApiError run run2 s) = Resolved \<and>
      \<not> isSpeaking (snd (handleVoiceCommand fl cmd lang ApiError run run2 s))) \<and>
   (run = FiresNothing \<longrightarrow>
      fst (handleVoiceCommand fl cmd lang api run run2 s) = Pending \<and>
      isSpeaking (snd (handleVoiceCommand fl cmd lang api run run2 s)) \<and>
      responsesOut (snd (handleVoiceCommand fl cmd lang api run run2 s)) = responsesOut s \<and>
      timers (snd (handleVoiceCommand fl cmd lang api run run2 s)) = timers s)"
proof -
  have a: "run \<noteq> FiresNothing \<and> message r = JStr m \<longrightarrow>
      fst (handleVoiceCommand fl cmd lang (ApiResponse r) run run2 s) = Resolved \<and>
      \<not> isSpeaking (snd (handleVoiceCommand fl cmd lang (ApiResponse r) run run2 s)) \<and>
      responsesOut (snd (handleVoiceCommand fl cmd lang (ApiResponse r) run run2 s))
        = responsesOut s @ [r]"
    using command_text_message [of run r m fl cmd lang run2 s] by simp
  have b: "run \<noteq> FiresNothing \<and> (\<forall>m. message r \<noteq> JStr m) \<longrightarrow>
      commandHistory (snd (handleVoiceCommand fl cmd lang (ApiResponse r) run run2 s))
        = commandHistory s @
            [(JStr cmd, ''user''), (message r, ''assistant''), (JStr errorMsg, ''error'')] \<and>
      responsesOut (snd (handleVoiceCommand fl cmd lang (ApiResponse r) run run2 s))
        = responsesOut s"
    using command_other_message [of run r fl cmd lang run2 s] by simp
  have c: "run \<noteq> FiresNothing \<longrightarrow>
      fst (handleVoiceCommand fl cmd lang ApiError run run2 s) = Resolved \<and>
      \<not> isSpeaking (snd (handleVoiceCommand fl cmd lang ApiError run run2 s))"
    by (simp add: command_error)
  have d: "run = FiresNothing \<longrightarrow>
      fst (handleVoiceCommand fl cmd lang api run run2 s) = Pending \<and>
      isSpeaking (snd (handleVoiceCommand fl cmd lang api run run2 s)) \<and>
      responsesOut (snd (handleVoiceCommand fl cmd lang api run run2 s)) = responsesOut s \<and>
      timers (snd (handleVoiceCommand fl cmd lang api run run2 s)) = timers s"
    by (simp add: command_pending)
  from speak_result [of run t s] a b c d show ?thesis by (intro conjI)
qed

text \<open>A command issued while idle whose answer is a question.\<close>

definition ask_confirm :: response where
  "ask_confirm =
     \<lparr>intent = ''phone_confirmation'', message = JStr (js ''Is this correct?''), data = None\<rparr>"

text \<open>A response that holds no message.\<close>

definition no_message :: response where
  "no_message = \<lparr>intent = ''unknown'', message = JUndefined, data = None\<rparr>"

theorem speak_never_rejects_witness:
  "fst (speak FiresError (JStr (js ''Hello'')) voice_init) = Resolved \<and>
   \<not> isSpeaking (snd (speak FiresError (JStr (js ''Hello'')) voice_init)) \<and>
   fst (handleVoiceCommand (current_flags voice_init) (js ''Pay 200 to 9108012345'') None
          (ApiResponse ask_confirm) FiresError FiresEnd voice_init) = Resolved \<and>
   \<not> isSpeaking (snd (handleVoiceCommand (current_flags voice_init) (js ''Pay 200 to 9108012345'')
          None (ApiResponse ask_confirm) FiresError FiresEnd voice_init)) \<and>
   responsesOut (snd (handleVoiceCommand (current_flags voice_init) (js ''Pay 200 to 9108012345'')
          None (ApiResponse ask_confirm) FiresError FiresEnd voice_init)) = [ask_confirm] \<and>
   fst (handleVoiceCommand (current_flags voice_init) (js ''Pay 200 to 9108012345'') None
          ApiError FiresError FiresEnd voice_init) = Resolved \<and>
   commandHistory (snd (handleVoiceCommand (current_flags voice_init) (js ''Pay 200 to 9108012345'')
          None (ApiResponse no_message) FiresError FiresEnd voice_init))
     = [(JStr (js ''Pay 200 to 9108012345''), ''user''), (JUndefined, ''assistant''),
        (JStr errorMsg, ''error'')] \<and>
   fst (handleVoiceCommand (current_flags voice_init) (js ''Pay 200 to 9108012345'') None
          (ApiResponse ask_confirm) FiresNothing FiresEnd voice_init) = Pending \<and>
   timers (snd (handleVoiceCommand (current_flags voice_init) (js ''Pay 200 to 9108012345'') None
          (ApiResponse ask_confirm) FiresNothing FiresEnd voice_init)) = []"
proof -
  note b = speak_never_rejects
    [where run = FiresError and t = "JStr (js ''Hello'')" and s = voice_init and r = no_message
       and m = "js ''Is this correct?''" and fl = "current_flags voice_init"
       and cmd = "js ''Pay 200 to 9108012345''" and lang = None and ?run2.0 = FiresEnd
       and api = ApiError]
  note p = speak_never_rejects
    [where run = FiresNothing and t = "JStr (js ''Hello'')" and s = voice_init and r = ask_confirm
       and m = "js ''Is this correct?''" and fl = "current_flags voice_init"
       and cmd = "js ''Pay 200 to 9108012345''" and lang = None and ?run2.0 = FiresEnd
       and api = "ApiResponse ask_confirm"]
  have hb: "FiresError \<noteq> FiresNothing \<and> (\<forall>m. message no_message \<noteq> JStr m)"
    by (simp add: no_message_def)
  note c5 = mp [OF b [THEN conjunct2, THEN conjunct2, THEN conjunct2, THEN conjunct2,
    THEN conjunct2, THEN conjunct1] hb]
  have h0: "commandHistory voice_init = []" "timers voice_init = []" "message no_message = JUndefined"
    by (simp_all add: voice_init_def no_message_def)
  from c5 [THEN conjunct1] h0 have c5h: "commandHistory (snd (handleVoiceCommand (current_flags voice_init)
      (js ''Pay 200 to 9108012345'') None (ApiResponse no_message) FiresError FiresEnd voice_init))
     = [(JStr (js ''Pay 200 to 9108012345''), ''user''), (JUndefined, ''assistant''),
        (JStr errorMsg, ''error'')]"
    by simp
  note c6 = mp [OF p [THEN conjunct2, THEN conjunct2, THEN conjunct2, THEN conjunct2,
    THEN conjunct2, THEN conjunct2, THEN conjunct2] refl]
  from c6 h0 have c6t: "timers (snd (handleVoiceCommand (current_flags voice_init)
      (js ''Pay 200 to 9108012345'') None (ApiResponse ask_confirm) FiresNothing FiresEnd voice_init)) = []"
    by simp
  note a = speak_never_rejects
    [where run = FiresError and t = "JStr (js ''Hello'')" and s = voice_init and r = ask_confirm
       and m = "js ''Is this correct?''" and fl = "current_flags voice_init"
       and cmd = "js ''Pay 200 to 9108012345''" and lang = None and ?run2.0 = FiresEnd
       and api = ApiError]
  have n: "FiresError \<noteq> FiresNothing" by simp
  have h: "FiresError \<noteq> FiresNothing \<and> message ask_confirm = JStr (js ''Is this correct?'')"
    by (simp add: ask_confirm_def)
  from a [THEN conjunct2, THEN conjunct1] n
  have c1: "fst (speak FiresError (JStr (js ''Hello'')) voice_init) = Resolved" by (rule iffD2)
  from a [THEN conjunct2, THEN conjunct2, THEN conjunct2, THEN conjunct1] n
  have c2: "\<not> isSpeaking (snd (speak FiresError (JStr (js ''Hello'')) voice_init))" by blast
  note c3 = mp [OF a [THEN conjunct2, THEN conjunct2, THEN conjunct2, THEN conjunct2,
    THEN conjunct1] h]
  have e: "responsesOut voice_init = []" by (simp add: voice_init_def)
  from c3 e have c3r: "responsesOut (snd (handleVoiceCommand (current_flags voice_init)
      (js ''Pay 200 to 9108012345'') None (ApiResponse ask_confirm) FiresError FiresEnd voice_init))
      = [ask_confirm]"
    by simp
  note c4 = mp [OF a [THEN conjunct2, THEN conjunct2, THEN conjunct2, THEN conjunct2,
    THEN conjunct2, THEN conjunct2, THEN conjunct1] n]
  from c1 c2 c3 [THEN conjunct1] c3 [THEN conjunct2, THEN conjunct1] c3r c4 [THEN conjunct1]
    c5h c6 [THEN conjunct1] c6t
  show ?thesis by (intro conjI)
qed

text \<open>
  The claim as written fails where the engine takes the utterance and fires neither
  \<open>end\<close> nor \<open>error\<close>: the promise of \<open>speak\<close> is never resolved, \<open>isSpeaking\<close>
  stays true, and the command that awaits it hands no response on.
\<close>

theorem speak_pending_counterexample:
  "fst (speak FiresNothing (JStr (js ''Hello'')) voice_init) = Pending \<and>
   isSpeaking (snd (speak FiresNothing (JStr (js ''Hello'')) voice_init)) \<and>
   fst (handleVoiceCommand (current_flags voice_init) (js ''Pay 200 to 9108012345'') None
          (ApiResponse ask_confirm) FiresNothing FiresEnd voice_init) = Pending \<and>
   isSpeaking (snd (handleVoiceCommand (current_flags voice_init) (js ''Pay 200 to 9108012345'')
          None (ApiResponse ask_confirm) FiresNothing FiresEnd voice_init)) \<and>
   responsesOut (snd (handleVoiceCommand (current_flags voice_init) (js ''Pay 200 to 9108012345'')
          None (ApiResponse ask_confirm) FiresNothing FiresEnd voice_init)) = []"
proof -
  have e: "responsesOut voice_init = []" by (simp add: voice_init_def)
  have r: "responsesOut (snd (handleVoiceCommand (current_flags voice_init)
      (js ''Pay 200 to 9108012345'') None (ApiResponse ask_confirm) FiresNothing FiresEnd voice_init))
      = []"
    by (simp only: command_pending e)
  have s: "fst (speak FiresNothing (JStr (js ''Hello'')) voice_init) = Pending"
    "isSpeaking (snd (speak FiresNothing (JStr (js ''Hello'')) voice_init))"
    by (simp_all add: speak_result)
  from s command_pending(1,2) r show ?thesis by (intro conjI)
qed

subsection \<open>Starting a recording\<close>















subsection \<open>The timer that reopens the capture\<close>

lemma toggleListening_keeps_timers:
  "timers (toggleListening fl s) = timers s"
  "timers (toggleListening_resume mic s) = timers s"
  by (simp_all add: toggleListening_def toggleListening_resume_def split: mic_result.splits)

lemma fire_timer_captured:
  "timers s = (d, fl) # rest \<Longrightarrow> fire_timer s = startListening fl (s\<lparr>timers := rest\<rparr>)"
  by (simp add: fire_timer_def)

text \<open>
  The command of \<open>ask_confirm\<close> issued while idle and answered; then the user starts a
  recording by hand, within the 500 ms, before the timer fires.
\<close>

definition asked_state :: voice_state where
  "asked_state =
     snd (handleVoiceCommand (current_flags voice_init) (js ''Pay 200 to 9108012345'') None
            (ApiResponse ask_confirm) FiresEnd FiresEnd voice_init)"

definition manual_start_state :: voice_state where
  "manual_start_state =
     toggleListening_resume MicGranted (toggleListening (current_flags asked_state) asked_state)"

lemma needsVoiceInput_ask_confirm: "needsVoiceInput (js ''Is this correct?'')"
proof -
  have "toLowerCase (js ''Is this correct?'') = js ''is this correct?''"
    by (simp add: toLowerCase_def js_def lower_cu_def)
  moreover have "ends_with_question (js ''is this correct?'')"
    by (simp add: ends_with_question_def js_def)
  ultimately show ?thesis by (simp add: needsVoiceInput_def)
qed

lemma asked_state_timers:
  "timers asked_state = [(500, \<lparr>f_isListening = False, f_showTextInput = False\<rparr>)]"
proof -
  have "FiresEnd \<noteq> FiresNothing" "message ask_confirm = JStr (js ''Is this correct?'')"
    by (simp_all add: ask_confirm_def)
  from command_text_message(4) [OF this]
  show ?thesis
    by (simp add: asked_state_def needsVoiceInput_ask_confirm)
      (simp add: voice_init_def current_flags_def)
qed

lemma asked_state_capture:
  "\<not> isListening asked_state \<and> \<not> showTextInput asked_state \<and> \<not> recorderRecording asked_state \<and>
   activeRecorders asked_state = 0 \<and> micRequests asked_state = 0"
  by (simp add: asked_state_def handleVoiceCommand_def speak_def Let_def voice_init_def
      ask_confirm_def)

lemma manual_start_state_capture:
  "isListening manual_start_state \<and> \<not> showTextInput manual_start_state \<and>
   activeRecorders manual_start_state = 1 \<and> micRequests manual_start_state = 0 \<and>
   timers manual_start_state = [(500, \<lparr>f_isListening = False, f_showTextInput = False\<rparr>)]"
  using asked_state_capture asked_state_timers
  by (simp add: manual_start_state_def toggleListening_def toggleListening_resume_def
      current_flags_def)

text \<open>
  Claim C9, on the code. The answer \<open>Is this correct?\<close> matches the patterns, and the
  command, issued while idle, leaves one timer of 500 ms. The user starts a recording
  by hand before it fires: the timer is still pending. With the values of the current
  render the guard of \<open>startListening\<close> would skip the start, but the callback of the
  timer reads the values of the render that issued the command, where \<open>isListening\<close>
  was false: when it fires it asks for the microphone again, and when that is granted a
  second recorder records beside the one the user started.
\<close>

theorem auto_continue_stale_guard:
  "needsVoiceInput (js ''Is this correct?'') \<and>
   timers asked_state = [(500, \<lparr>f_isListening = False, f_showTextInput = False\<rparr>)] \<and>
   phase manual_start_state = Recording \<and>
   activeRecorders manual_start_state = 1 \<and>
   timers manual_start_state = [(500, \<lparr>f_isListening = False, f_showTextInput = False\<rparr>)] \<and>
   startListening (current_flags manual_start_state) manual_start_state = manual_start_state \<and>
   timers (fire_timer manual_start_state) = [] \<and>
   micRequests (fire_timer manual_start_state) = 1 \<and>
   activeRecorders (toggleListening_resume MicGranted (fire_timer manual_start_state)) = 2"
proof -
  note m = manual_start_state_capture
  have p: "phase manual_start_state = Recording" using m by (simp add: phase_def)
  have g: "startListening (current_flags manual_start_state) manual_start_state = manual_start_state"
    using m by (simp add: startListening_def current_flags_def)
  have f: "fire_timer manual_start_state
      = manual_start_state\<lparr>timers := [], transcript := [], micRequests := 1\<rparr>"
    using m by (simp add: fire_timer_def startListening_def toggleListening_def)
  have t: "timers (fire_timer manual_start_state) = []"
    and q: "micRequests (fire_timer manual_start_state) = 1"
    by (simp_all add: f)
  have a: "activeRecorders (toggleListening_resume MicGranted (fire_timer manual_start_state)) = 2"
    using m by (simp add: f toggleListening_resume_def)
  from needsVoiceInput_ask_confirm asked_state_timers p m [THEN conjunct2, THEN conjunct2, THEN conjunct1]
    m [THEN conjunct2, THEN conjunct2, THEN conjunct2, THEN conjunct2] g t q a
  show ?thesis by (intro conjI)
qed

section \<open>Transcript correction (VoiceInterface.jsx, transcribeAudio)\<close>

text \<open>
  The table \<open>nameCorrections\<close> in the order of its keys, which is the order of
  \<open>Object.entries\<close>. The three keys with a letter outside ASCII are written by their
  code units: U+00FA in the fifth, U+00FE and U+00F0 in the eighth, U+00F0 in the ninth.
\<close>

definition nameCorrections :: "(jsstring \<times> jsstring) list" where
  "nameCorrections =
     [(js ''nudj'', js ''Anuj''),
      (js ''anuj'', js ''Anuj''),
      (js ''grazie'', js ''Rahul''),
      (js ''grazi'', js ''Rahul''),
      ([114, 250, 112, 101, 97, 115], js ''rupees''),
      (js ''rupaye'', js ''rupees''),
      (js ''rupay'', js ''rupees''),
      ([254, 97, 240], js ''to''),
      ([97, 240], js ''to''),
      (js ''sau'', js ''100''),
      (js ''so'', js ''100''),
      (js ''pachas'', js ''50''),
      (js ''das'', js ''10''),
      (js ''bees'', js ''20''),
      (js ''pachees'', js ''25''),
      (js ''paanch'', js ''5'')]"

text \<open>
  The loop over the entries: each builds \<open>new RegExp(`\\b${wrong}\\b`, 'gi')\<close> and
  replaces every match in the text corrected so far.
\<close>

definition applyCorrections :: "jsstring \<Rightarrow> jsstring" where
  "applyCorrections t =
     foldl (\<lambda>acc (wrong, correct). regex_replace wrong correct None acc) t nameCorrections"

subsection \<open>Chunks of a text, and a pattern that is a word\<close>

text \<open>Two strings that the \<open>i\<close> flag does not tell apart.\<close>

definition ci_eq :: "jsstring \<Rightarrow> jsstring \<Rightarrow> bool" where
  "ci_eq a b = (map canonicalize a = map canonicalize b)"

text \<open>
  A text is cut into chunks: a word chunk is a maximal run of word characters, a
  separator chunk is one code unit that is no word character. \<open>canon\<close> says that a
  list of chunks is such a cutting: no two word chunks are neighbours.
\<close>

definition word_chunk :: "jsstring \<Rightarrow> bool" where
  "word_chunk ch = (ch \<noteq> [] \<and> list_all is_word_char ch)"

definition sep_chunk :: "jsstring \<Rightarrow> bool" where
  "sep_chunk ch = (\<exists>c. ch = [c] \<and> \<not> is_word_char c)"

fun canon :: "jsstring list \<Rightarrow> bool" where
  "canon [] = True"
| "canon [a] = (word_chunk a \<or> sep_chunk a)"
| "canon (a # b # rest) = ((word_chunk a \<and> sep_chunk b \<or> sep_chunk a) \<and> canon (b # rest))"

lemma word_canonicalize [simp]: "is_word_char (canonicalize c) = is_word_char c"
  by (auto simp: is_word_char_def canonicalize_def)

lemma canonicalize_eq_word: "canonicalize c = canonicalize p \<Longrightarrow> is_word_char c = is_word_char p"
  by (metis word_canonicalize)

lemma ci_eq_word: "ci_eq a b \<Longrightarrow> list_all is_word_char a = list_all is_word_char b"
proof (induction a arbitrary: b)
  case Nil
  then show ?case by (simp add: ci_eq_def)
next
  case (Cons x xs)
  then obtain y ys where b: "b = y # ys" by (cases b) (auto simp: ci_eq_def)
  with Cons.prems have "canonicalize x = canonicalize y" "ci_eq xs ys" by (auto simp: ci_eq_def)
  with Cons.IH[of ys] b show ?case using canonicalize_eq_word[of x y] by simp
qed

lemma word_chunk_ci: "ci_eq a b \<Longrightarrow> word_chunk a = word_chunk b"
  using ci_eq_word[of a b] by (auto simp: word_chunk_def ci_eq_def)

text \<open>What an entry whose pattern is a word does to a chunk: the whole chunk or nothing.\<close>

definition sub :: "jsstring \<Rightarrow> jsstring \<Rightarrow> jsstring \<Rightarrow> jsstring" where
  "sub k r ch = (if ci_eq ch k then r else ch)"

text \<open>The code unit before the chunks fits them: after a word character comes no word chunk.\<close>

definition ok_ctx :: "jschar option \<Rightarrow> jsstring list \<Rightarrow> bool" where
  "ok_ctx prev chs = (wordness prev \<longrightarrow> chs = [] \<or> sep_chunk (hd chs))"

lemma no_match_word_word:
  "is_word_char q \<Longrightarrow> is_word_char c \<Longrightarrow> \<not> match_at p (Some q) (c # s)"
  by (simp add: match_at_def boundary_def wordness_def first_cu_def)

lemma no_match_np_sep:
  "\<not> wordness prev \<Longrightarrow> \<not> is_word_char c \<Longrightarrow> \<not> match_at p prev (c # s)"
  by (simp add: match_at_def boundary_def wordness_def first_cu_def)

lemma match_at_hd:
  "match_at p prev (c # s) \<Longrightarrow> p \<noteq> [] \<and> canonicalize c = canonicalize (hd p)"
  by (cases p) (auto simp: match_at_def split: if_splits option.splits)

lemma replace_no_match:
  "\<not> match_at p prev (c # R) \<Longrightarrow> regex_replace p r prev (c # R) = c # regex_replace p r (Some c) R"
  by simp

lemma replace_match:
  "match_at p prev (c # s) \<Longrightarrow>
     regex_replace p r prev (c # s)
       = r @ regex_replace p r (Some ((c # s) ! (length p - 1))) (drop (length p) (c # s))"
  by simp

declare regex_replace.simps(2) [simp del]

lemma replace_skip_run:
  "list_all is_word_char u \<Longrightarrow> u \<noteq> [] \<Longrightarrow> \<not> match_at p prev (u @ R) \<Longrightarrow>
     regex_replace p r prev (u @ R) = u @ regex_replace p r (Some (last u)) R"
proof (induction u arbitrary: prev)
  case Nil
  then show ?case by simp
next
  case (Cons c u)
  show ?case
  proof (cases u)
    case Nil
    with Cons.prems show ?thesis by (simp add: replace_no_match)
  next
    case (Cons c' u')
    from Cons.prems have 1: "regex_replace p r prev ((c # u) @ R) = c # regex_replace p r (Some c) (u @ R)"
      by (simp add: replace_no_match)
    from Cons.prems Cons have "\<not> match_at p (Some c) (u @ R)"
      by (simp add: no_match_word_word)
    with Cons.IH[of "Some c"] Cons.prems Cons
    have "regex_replace p r (Some c) (u @ R) = u @ regex_replace p r (Some (last u)) R" by simp
    with 1 Cons show ?thesis by simp
  qed
qed

lemma match_word_run:
  assumes k: "word_chunk k" and ch: "word_chunk ch" and np: "\<not> wordness prev"
    and R: "R = [] \<or> \<not> is_word_char (hd R)"
  shows "match_at k prev (ch @ R) \<longleftrightarrow> ci_eq ch k"
proof
  assume e: "ci_eq ch k"
  then have len: "length ch = length k" unfolding ci_eq_def by (metis length_map)
  from ch have chne: "ch \<noteq> []" and lw: "is_word_char (last ch)"
    by (auto simp: word_chunk_def list_all_iff)
  from chne len have "length k - 1 < length ch" by (cases ch) auto
  with chne len have idx: "(ch @ R) ! (length k - 1) = last ch"
    by (simp add: nth_append last_conv_nth)
  from ch chne have b1: "boundary prev (first_cu (ch @ R))"
    using np by (cases ch) (auto simp: boundary_def first_cu_def wordness_def word_chunk_def)
  from R lw have b2: "boundary (Some (last ch)) (first_cu R)"
    by (cases R) (auto simp: boundary_def first_cu_def wordness_def)
  from k have "k \<noteq> []" by (simp add: word_chunk_def)
  with e len b1 b2 idx show "match_at k prev (ch @ R)"
    by (simp add: match_at_def lit_match_eq ci_eq_def)
next
  assume m: "match_at k prev (ch @ R)"
  let ?n = "length k"
  from k have kne: "k \<noteq> []" and kw: "list_all is_word_char k" by (auto simp: word_chunk_def)
  from m have len: "?n \<le> length (ch @ R)"
    and eq: "map canonicalize (take ?n (ch @ R)) = map canonicalize k"
    and b2: "boundary (Some ((ch @ R) ! (?n - 1))) (first_cu (drop ?n (ch @ R)))"
    by (auto simp: match_at_def lit_match_eq split: if_splits)
  from eq have "ci_eq (take ?n (ch @ R)) k" by (simp add: ci_eq_def)
  with kw have tw: "list_all is_word_char (take ?n (ch @ R))" using ci_eq_word by blast
  have le: "?n \<le> length ch"
  proof (rule ccontr)
    assume "\<not> ?n \<le> length ch"
    then have gt: "length ch < ?n" by simp
    with len have Rne: "R \<noteq> []" by auto
    from gt len have "(take ?n (ch @ R)) ! (length ch) = hd R"
      using Rne by (simp add: nth_append hd_conv_nth)
    moreover from gt len have "length ch < length (take ?n (ch @ R))" by simp
    ultimately have "is_word_char (hd R)"
      using tw by (metis list_all_length)
    with R Rne show False by simp
  qed
  have "?n = length ch"
  proof (rule ccontr)
    assume "?n \<noteq> length ch"
    with le have lt: "?n < length ch" by simp
    from kne have pos: "0 < ?n" by simp
    from ch have cw: "list_all is_word_char ch" by (simp add: word_chunk_def)
    from lt pos have lt1: "?n - 1 < length ch" by simp
    then have "(ch @ R) ! (?n - 1) = ch ! (?n - 1)" by (simp add: nth_append)
    moreover from lt1 cw have "is_word_char (ch ! (?n - 1))" by (simp add: list_all_length)
    moreover from lt have "drop ?n (ch @ R) = ch ! ?n # (drop (Suc ?n) ch @ R)"
      by (simp add: Cons_nth_drop_Suc)
    then have "first_cu (drop ?n (ch @ R)) = Some (ch ! ?n)" by (simp add: first_cu_def)
    moreover from lt cw have "is_word_char (ch ! ?n)" by (simp add: list_all_length)
    ultimately show False using b2 by (simp add: boundary_def wordness_def)
  qed
  with eq show "ci_eq ch k" by (simp add: ci_eq_def)
qed

lemma word_not_sep: "word_chunk ch \<Longrightarrow> \<not> sep_chunk ch"
  by (auto simp: word_chunk_def sep_chunk_def)

lemma canon_Cons:
  "canon (ch # rest) \<Longrightarrow>
     canon rest \<and> (word_chunk ch \<or> sep_chunk ch) \<and>
     (word_chunk ch \<longrightarrow> rest = [] \<or> sep_chunk (hd rest))"
  by (cases rest) (auto simp: word_not_sep)

lemma canon_ConsI:
  "canon rest \<Longrightarrow> sep_chunk ch \<or> (word_chunk ch \<and> (rest = [] \<or> sep_chunk (hd rest)))
     \<Longrightarrow> canon (ch # rest)"
  by (cases rest) auto

lemma concat_sep_head:
  "rest = [] \<or> sep_chunk (hd rest) \<Longrightarrow> concat rest = [] \<or> \<not> is_word_char (hd (concat rest))"
  by (cases rest) (auto simp: sep_chunk_def)

lemma replace_matched_run:
  assumes m: "match_at k prev (ch @ R)" and e: "ci_eq ch k" and ne: "ch \<noteq> []"
  shows "regex_replace k r prev (ch @ R) = r @ regex_replace k r (Some (last ch)) R"
proof -
  from e have len: "length ch = length k" unfolding ci_eq_def by (metis length_map)
  from ne obtain c s where cs: "ch @ R = c # s" by (cases ch) auto
  from ne len have "length k - 1 < length ch" by (cases ch) auto
  with ne len have idx: "(ch @ R) ! (length k - 1) = last ch"
    by (simp add: nth_append last_conv_nth)
  from m cs have "regex_replace k r prev (ch @ R)
      = r @ regex_replace k r (Some ((ch @ R) ! (length k - 1))) (drop (length k) (ch @ R))"
    using replace_match[of k prev c s r] by simp
  with idx len show ?thesis by simp
qed

lemma replace_word_chunks:
  assumes k: "word_chunk k"
  shows "canon chs \<Longrightarrow> ok_ctx prev chs \<Longrightarrow>
     regex_replace k r prev (concat chs) = concat (map (sub k r) chs)"
proof (induction chs arbitrary: prev)
  case Nil
  then show ?case by simp
next
  case (Cons ch rest)
  from canon_Cons[OF Cons.prems(1)] have cr: "canon rest"
    and cls: "word_chunk ch \<or> sep_chunk ch"
    and nxt: "word_chunk ch \<longrightarrow> rest = [] \<or> sep_chunk (hd rest)" by simp_all
  from k have kw: "is_word_char (hd k)" and kne: "k \<noteq> []"
    by (cases k; simp add: word_chunk_def)+
  show ?case
  proof (cases "sep_chunk ch")
    case True
    then obtain c where c: "ch = [c]" "\<not> is_word_char c" by (auto simp: sep_chunk_def)
    have nm: "\<not> match_at k prev (c # concat rest)"
    proof
      assume "match_at k prev (c # concat rest)"
      from match_at_hd[OF this] have "canonicalize c = canonicalize (hd k)" by simp
      with kw c show False using canonicalize_eq_word by blast
    qed
    have "\<not> ci_eq ch k"
      using word_chunk_ci[of ch k] k True word_not_sep by blast
    then have s: "sub k r ch = ch" by (simp add: sub_def)
    from c have "ok_ctx (Some c) rest" by (simp add: ok_ctx_def wordness_def)
    from Cons.IH[OF cr this] nm s c show ?thesis by (simp add: replace_no_match)
  next
    case False
    with cls have w: "word_chunk ch" by simp
    with Cons.prems(2) have np: "\<not> wordness prev" by (auto simp: ok_ctx_def word_not_sep)
    from w nxt have R: "concat rest = [] \<or> \<not> is_word_char (hd (concat rest))"
      using concat_sep_head by blast
    from w have chne: "ch \<noteq> []" and lw: "list_all is_word_char ch" by (auto simp: word_chunk_def)
    from w nxt have "ok_ctx (Some (last ch)) rest" by (simp add: ok_ctx_def)
    from Cons.IH[OF cr this]
    have ih: "regex_replace k r (Some (last ch)) (concat rest) = concat (map (sub k r) rest)" .
    note mw = match_word_run[OF k w np R]
    show ?thesis
    proof (cases "ci_eq ch k")
      case True
      with mw have "match_at k prev (ch @ concat rest)" by simp
      moreover from True have "sub k r ch = r" by (simp add: sub_def)
      ultimately show ?thesis using replace_matched_run[OF _ True chne, of prev "concat rest" r] ih
        by simp
    next
      case False
      with mw have "\<not> match_at k prev (ch @ concat rest)" by simp
      moreover from False have "sub k r ch = ch" by (simp add: sub_def)
      ultimately show ?thesis using replace_skip_run[OF lw chne, of k prev "concat rest" r] ih
        by simp
    qed
  qed
qed

lemma sub_class:
  assumes "word_chunk k" "word_chunk r"
  shows "word_chunk (sub k r ch) = word_chunk ch" "sep_chunk (sub k r ch) = sep_chunk ch"
  using assms word_chunk_ci[of ch k] word_not_sep[of r] word_not_sep[of ch]
  by (auto simp: sub_def)

lemma canon_map_sub:
  assumes "word_chunk k" "word_chunk r"
  shows "canon chs \<Longrightarrow> canon (map (sub k r) chs)"
proof (induction chs rule: canon.induct)
  case 1
  then show ?case by simp
next
  case (2 a)
  then show ?case by (simp add: sub_class[OF assms])
next
  case (3 a b rest)
  then show ?case by (simp add: sub_class[OF assms])
qed

lemma chunks_exist: "\<exists>chs. canon chs \<and> concat chs = x"
proof (induction x)
  case Nil
  have "canon [] \<and> concat [] = ([]::jsstring)" by simp
  then show ?case by blast
next
  case (Cons c x)
  then obtain chs where chs: "canon chs" "concat chs = x" by blast
  show ?case
  proof (cases "is_word_char c")
    case False
    then have "sep_chunk [c]" by (simp add: sep_chunk_def)
    with chs have "canon ([c] # chs) \<and> concat ([c] # chs) = c # x"
      using canon_ConsI[of chs "[c]"] by simp
    then show ?thesis by blast
  next
    case True
    show ?thesis
    proof (cases chs)
      case Nil
      with True chs have "canon [[c]] \<and> concat [[c]] = c # x" by (simp add: word_chunk_def)
      then show ?thesis by blast
    next
      case (Cons h t)
      show ?thesis
      proof (cases "word_chunk h")
        case False
        with chs(1) Cons have "sep_chunk h" using canon_Cons by blast
        with True chs Cons have "canon ([c] # chs) \<and> concat ([c] # chs) = c # x"
          using canon_ConsI[of chs "[c]"] by (simp add: word_chunk_def)
        then show ?thesis by blast
      next
        case hw: True
        from chs(1) Cons have ct: "canon t" and "t = [] \<or> sep_chunk (hd t)"
          using canon_Cons[of h t] hw by simp_all
        moreover from hw True have "word_chunk (c # h)" by (simp add: word_chunk_def)
        ultimately have "canon ((c # h) # t)" using canon_ConsI[of t "c # h"] by simp
        with chs Cons have "canon ((c # h) # t) \<and> concat ((c # h) # t) = c # x" by simp
        then show ?thesis by blast
      qed
    qed
  qed
qed

subsection \<open>The patterns that span several chunks\<close>

text \<open>
  Three patterns of the table hold a code unit that is no word character and span
  several chunks. \<open>win9\<close>, \<open>win8\<close> and \<open>win5\<close> say that the chunks begin with a match of
  the second, the first and the third of them (a word chunk must follow the match of
  the first two, and precede the match of the first, for \<open>\b\<close> to hold), and \<open>s9\<close>,
  \<open>s8\<close> and \<open>s5\<close> replace the matches from left to right; \<open>prep\<close> joins the
  replacement to the word chunk that follows.
\<close>

definition prep :: "jsstring \<Rightarrow> jsstring list \<Rightarrow> jsstring list" where
  "prep u chs = (case chs of [] \<Rightarrow> [u] | h # t \<Rightarrow> (u @ h) # t)"

lemma concat_prep: "concat (prep u chs) = u @ concat chs"
  by (cases chs) (simp_all add: prep_def)

fun win9 :: "jsstring list \<Rightarrow> bool" where
  "win9 (a # d # c # rest) = (ci_eq a [97] \<and> ci_eq d [240] \<and> word_chunk c)"
| "win9 chs = False"

fun win8 :: "jsstring list \<Rightarrow> bool" where
  "win8 (w # b # a # d # c # rest) =
     (word_chunk w \<and> ci_eq b [254] \<and> ci_eq a [97] \<and> ci_eq d [240] \<and> word_chunk c)"
| "win8 chs = False"

fun win5 :: "jsstring list \<Rightarrow> bool" where
  "win5 (a # b # c # rest) = (ci_eq a [114] \<and> ci_eq b [250] \<and> ci_eq c [112, 101, 97, 115])"
| "win5 chs = False"

function s9 :: "jsstring list \<Rightarrow> jsstring list" where
  "s9 [] = []"
| "s9 (a # rest) = (if win9 (a # rest) then prep [116, 111] (s9 (tl rest)) else a # s9 rest)"
  by pat_completeness auto
termination
  by (relation "measure length") auto

function s8 :: "jsstring list \<Rightarrow> jsstring list" where
  "s8 [] = []"
| "s8 (w # rest) =
     (if win8 (w # rest) then prep (w @ [116, 111]) (s8 (drop 3 rest)) else w # s8 rest)"
  by pat_completeness auto
termination
  by (relation "measure length") auto

function s5 :: "jsstring list \<Rightarrow> jsstring list" where
  "s5 [] = []"
| "s5 (a # rest) =
     (if win5 (a # rest) then [114, 117, 112, 101, 101, 115] # s5 (drop 2 rest) else a # s5 rest)"
  by pat_completeness auto
termination
  by (relation "measure length") auto

lemma head_step:
  assumes c: "canon (a # rest)" and nm: "\<not> match_at p prev (concat (a # rest))"
  shows "regex_replace p r prev (concat (a # rest))
           = a @ regex_replace p r (Some (last a)) (concat rest) \<and>
         ok_ctx (Some (last a)) rest"
proof -
  from canon_Cons[OF c] have cls: "word_chunk a \<or> sep_chunk a"
    and nxt: "word_chunk a \<longrightarrow> rest = [] \<or> sep_chunk (hd rest)" by simp_all
  show ?thesis
  proof (cases "sep_chunk a")
    case True
    then obtain x where x: "a = [x]" "\<not> is_word_char x" by (auto simp: sep_chunk_def)
    with nm show ?thesis by (simp add: replace_no_match ok_ctx_def wordness_def)
  next
    case False
    with cls have w: "word_chunk a" by simp
    then have "list_all is_word_char a" "a \<noteq> []" by (auto simp: word_chunk_def)
    from replace_skip_run[OF this, of p prev "concat rest" r] nm w nxt
    show ?thesis by (simp add: ok_ctx_def)
  qed
qed

lemma first_cu_concat:
  "canon chs \<Longrightarrow> wordness (first_cu (concat chs)) = (chs \<noteq> [] \<and> word_chunk (hd chs))"
proof (cases chs)
  case Nil
  then show ?thesis by (simp add: first_cu_def wordness_def)
next
  case (Cons a rest)
  assume "canon chs"
  with Cons have "word_chunk a \<or> sep_chunk a" using canon_Cons by blast
  then show ?thesis
  proof
    assume w: "word_chunk a"
    then obtain x a' where "a = x # a'" "is_word_char x" by (cases a) (auto simp: word_chunk_def)
    with w Cons show ?thesis by (simp add: first_cu_def wordness_def)
  next
    assume s: "sep_chunk a"
    then obtain x where "a = [x]" "\<not> is_word_char x" by (auto simp: sep_chunk_def)
    with s Cons show ?thesis using word_not_sep[of a] by (auto simp: first_cu_def wordness_def)
  qed
qed

lemma canon_65: "canonicalize x = 65 \<longleftrightarrow> x = 65 \<or> x = 97"
  by (auto simp: canonicalize_def)

lemma canon_208: "canonicalize x = 208 \<longleftrightarrow> x = 208 \<or> x = 240"
  by (auto simp: canonicalize_def)

lemma canon_222: "canonicalize x = 222 \<longleftrightarrow> x = 222 \<or> x = 254"
  by (auto simp: canonicalize_def)

lemma canon_218: "canonicalize x = 218 \<longleftrightarrow> x = 218 \<or> x = 250"
  by (auto simp: canonicalize_def)

lemma match_p9:
  "match_at [97, 240] prev s \<longleftrightarrow>
     \<not> wordness prev \<and>
     (\<exists>x y R. s = x # y # R \<and> canonicalize x = 65 \<and> canonicalize y = 208 \<and> wordness (first_cu R))"
proof (cases s)
  case Nil
  then show ?thesis by (simp add: match_at_def)
next
  case (Cons x s')
  show ?thesis
  proof (cases s')
    case Nil
    with Cons show ?thesis by (simp add: match_at_def canonicalize_def)
  next
    case (Cons y R)
    have c: "canonicalize 97 = 65" "canonicalize 240 = 208" by (simp_all add: canonicalize_def)
    have "canonicalize x = 65 \<Longrightarrow> is_word_char x" by (auto simp: canon_65 is_word_char_def)
    moreover have "canonicalize y = 208 \<Longrightarrow> \<not> is_word_char y" by (auto simp: canon_208 is_word_char_def)
    ultimately show ?thesis using Cons \<open>s = x # s'\<close>
      by (auto simp: match_at_def c boundary_def wordness_def first_cu_def)
  qed
qed

lemma ci_eq_single: "ci_eq a [v] \<longleftrightarrow> (\<exists>x. a = [x] \<and> canonicalize x = canonicalize v)"
  by (cases a) (auto simp: ci_eq_def)

lemma chunk_two_word:
  assumes "word_chunk a \<or> sep_chunk a" and "a = x # y # a'"
  shows "is_word_char x \<and> is_word_char y"
  using assms by (auto simp: word_chunk_def sep_chunk_def)

lemma canon_tail: "canon (a # rest) \<Longrightarrow> canon rest"
  using canon_Cons by blast

lemma chunk_nonempty: "word_chunk a \<or> sep_chunk a \<Longrightarrow> a \<noteq> []"
  by (auto simp: word_chunk_def sep_chunk_def)

lemma single_class:
  "word_chunk [x] = is_word_char x" "sep_chunk [x] = (\<not> is_word_char x)"
  by (auto simp: word_chunk_def sep_chunk_def)

lemma match_win9:
  assumes c: "canon chs" and ctx: "ok_ctx prev chs"
  shows "match_at [97, 240] prev (concat chs) = win9 chs"
proof
  assume w: "win9 chs"
  then obtain a d cc rest where chs: "chs = a # d # cc # rest"
    by (cases chs rule: win9.cases) auto
  with w have a: "ci_eq a [97]" and d: "ci_eq d [240]" and cw: "word_chunk cc" by simp_all
  from a obtain x where x: "a = [x]" "canonicalize x = 65"
    by (auto simp: ci_eq_single canonicalize_def)
  from d obtain y where y: "d = [y]" "canonicalize y = 208"
    by (auto simp: ci_eq_single canonicalize_def)
  from x have "is_word_char x" by (auto simp: canon_65 is_word_char_def)
  with x have "word_chunk a" by (simp add: single_class)
  with ctx chs have np: "\<not> wordness prev" by (auto simp: ok_ctx_def word_not_sep)
  from c chs have "canon (cc # rest)" using canon_tail by blast
  from first_cu_concat[OF this] cw have "wordness (first_cu (concat (cc # rest)))" by simp
  with np x y chs show "match_at [97, 240] prev (concat chs)"
    unfolding match_p9 by simp
next
  assume "match_at [97, 240] prev (concat chs)"
  then obtain x y R where np: "\<not> wordness prev" and s: "concat chs = x # y # R"
    and x: "canonicalize x = 65" and y: "canonicalize y = 208" and R: "wordness (first_cu R)"
    unfolding match_p9 by blast
  from x have xw: "is_word_char x" by (auto simp: canon_65 is_word_char_def)
  from y have yw: "\<not> is_word_char y" by (auto simp: canon_208 is_word_char_def)
  from s obtain a rest where chs: "chs = a # rest" by (cases chs) auto
  from c chs have cls: "word_chunk a \<or> sep_chunk a" and cr: "canon rest"
    and nxt: "word_chunk a \<longrightarrow> rest = [] \<or> sep_chunk (hd rest)"
    using canon_Cons by blast+
  from cls have ane: "a \<noteq> []" by (rule chunk_nonempty)
  with s chs obtain a' where a: "a = x # a'" by (cases a) auto
  have a'e: "a' = []"
  proof (rule ccontr)
    assume "a' \<noteq> []"
    then obtain z a'' where "a' = z # a''" by (cases a') auto
    with a s chs have "a = x # y # a''" by simp
    from chunk_two_word[OF cls this] yw show False by simp
  qed
  with a xw have aw: "word_chunk a" by (simp add: single_class)
  from a a'e s chs have s2: "concat rest = y # R" by simp
  then have "rest \<noteq> []" by auto
  with aw nxt have "sep_chunk (hd rest)" by simp
  then obtain y' where "hd rest = [y']" by (auto simp: sep_chunk_def)
  with \<open>rest \<noteq> []\<close> obtain rest' where rest: "rest = [y'] # rest'" by (cases rest) auto
  with s2 have y': "y' = y" and R2: "R = concat rest'" by simp_all
  from cr rest have "canon rest'" using canon_tail by blast
  from first_cu_concat[OF this] R R2 have "rest' \<noteq> [] \<and> word_chunk (hd rest')" by simp
  then obtain cc rest'' where r': "rest' = cc # rest''" "word_chunk cc" by (cases rest') auto
  from a a'e x have "ci_eq a [97]" by (simp add: ci_eq_single canonicalize_def)
  moreover from y have "ci_eq [y] [240]" by (simp add: ci_eq_single canonicalize_def)
  ultimately show "win9 chs" using chs rest y' r' by simp
qed

declare s9.simps(2) [simp del]

declare s8.simps(2) [simp del]

declare s5.simps(2) [simp del]

lemma replace_chunks_s9:
  "canon chs \<Longrightarrow> ok_ctx prev chs \<Longrightarrow>
     regex_replace [97, 240] [116, 111] prev (concat chs) = concat (s9 chs)"
proof (induction chs arbitrary: prev rule: s9.induct)
  case 1
  then show ?case by simp
next
  case (2 a rest)
  note c = \<open>canon (a # rest)\<close> and ctx = \<open>ok_ctx prev (a # rest)\<close>
  show ?case
  proof (cases "win9 (a # rest)")
    case True
    then obtain d cc rest' where rest: "rest = d # cc # rest'"
      by (cases "a # rest" rule: win9.cases) auto
    with True have "ci_eq a [97]" "ci_eq d [240]" by simp_all
    then obtain x y where xy: "a = [x]" "d = [y]" "canonicalize y = 208"
      by (auto simp: ci_eq_single canonicalize_def)
    then have "\<not> is_word_char y" by (auto simp: canon_208 is_word_char_def)
    then have ctx': "ok_ctx (Some y) (tl rest)" by (simp add: ok_ctx_def wordness_def)
    from c rest have c': "canon (tl rest)" using canon_tail[of a rest] canon_tail[of d "cc # rest'"] by simp
    from match_win9[OF c ctx] True have "match_at [97, 240] prev (x # y # concat (cc # rest'))"
      using xy rest by simp
    from replace_match[OF this]
    have "regex_replace [97, 240] [116, 111] prev (concat (a # rest))
        = [116, 111] @ regex_replace [97, 240] [116, 111] (Some y) (concat (tl rest))"
      using xy rest by simp
    also have "\<dots> = [116, 111] @ concat (s9 (tl rest))"
      using "2.IH"(1)[OF True c' ctx'] by simp
    finally show ?thesis using True by (simp add: s9.simps(2) concat_prep)
  next
    case False
    with match_win9[OF c ctx] have "\<not> match_at [97, 240] prev (concat (a # rest))" by simp
    from head_step[OF c this, of "[116, 111]"] "2.IH"(2)[OF False canon_tail[OF c]] False
    show ?thesis by (simp add: s9.simps(2))
  qed
qed

lemma run_unique:
  assumes "u @ A = v @ B" "list_all is_word_char u" "list_all is_word_char v"
    "A = [] \<or> \<not> is_word_char (hd A)" "B = [] \<or> \<not> is_word_char (hd B)"
  shows "u = v \<and> A = B"
proof -
  have t: "\<And>w C. list_all is_word_char w \<Longrightarrow> C = [] \<or> \<not> is_word_char (hd C) \<Longrightarrow>
      takeWhile is_word_char (w @ C) = w"
  proof -
    fix w C assume w: "list_all is_word_char w" and C: "C = [] \<or> \<not> is_word_char (hd C)"
    from C have "takeWhile is_word_char C = []" by (cases C) auto
    with w show "takeWhile is_word_char (w @ C) = w" by (simp add: list_all_iff)
  qed
  from t[OF assms(2,4)] t[OF assms(3,5)] assms(1) have "u = v" by simp
  with assms(1) show ?thesis by simp
qed

lemma lit_match_Cons:
  "lit_match (p # ps) s = Some rest \<longleftrightarrow>
     (\<exists>c cs. s = c # cs \<and> canonicalize c = canonicalize p \<and> lit_match ps cs = Some rest)"
  by (cases s) auto

lemma lit_p5:
  "lit_match [114, 250, 112, 101, 97, 115] s = Some R' \<Longrightarrow>
     \<exists>x u p e a ss. s = x # u # p # e # a # ss # R' \<and> canonicalize x = 82 \<and>
       canonicalize u = 218 \<and> canonicalize p = 80 \<and> canonicalize e = 69 \<and>
       canonicalize a = 65 \<and> canonicalize ss = 83"
proof -
  assume lm: "lit_match [114, 250, 112, 101, 97, 115] s = Some R'"
  have c: "canonicalize 114 = 82" "canonicalize 250 = 218" "canonicalize 112 = 80"
    "canonicalize 101 = 69" "canonicalize 97 = 65" "canonicalize 115 = 83"
    by (simp_all add: canonicalize_def)
  from lm obtain x s1 where 1: "s = x # s1" "canonicalize x = 82"
    "lit_match [250, 112, 101, 97, 115] s1 = Some R'"
    by (cases s) (auto simp: c split: if_splits)
  from 1(3) obtain u s2 where 2: "s1 = u # s2" "canonicalize u = 218"
    "lit_match [112, 101, 97, 115] s2 = Some R'"
    by (cases s1) (auto simp: c split: if_splits)
  from 2(3) obtain p s3 where 3: "s2 = p # s3" "canonicalize p = 80"
    "lit_match [101, 97, 115] s3 = Some R'"
    by (cases s2) (auto simp: c split: if_splits)
  from 3(3) obtain e s4 where 4: "s3 = e # s4" "canonicalize e = 69"
    "lit_match [97, 115] s4 = Some R'"
    by (cases s3) (auto simp: c split: if_splits)
  from 4(3) obtain a s5 where 5: "s4 = a # s5" "canonicalize a = 65"
    "lit_match [115] s5 = Some R'"
    by (cases s4) (auto simp: c split: if_splits)
  from 5(3) obtain ss where 6: "s5 = ss # R'" "canonicalize ss = 83"
    by (cases s5) (auto simp: c split: if_splits)
  from 1 2 3 4 5 6 show ?thesis by simp
qed

lemma canon_word_82_83:
  "canonicalize x = 82 \<Longrightarrow> is_word_char x" "canonicalize x = 83 \<Longrightarrow> is_word_char x"
  by (auto simp: canonicalize_def is_word_char_def split: if_splits)

lemma match_p5:
  "match_at [114, 250, 112, 101, 97, 115] prev s \<longleftrightarrow>
     \<not> wordness prev \<and>
     (\<exists>x u R. s = x # u # R \<and> canonicalize x = 82 \<and> canonicalize u = 218 \<and>
        (\<exists>m R'. R = m @ R' \<and> ci_eq m [112, 101, 97, 115] \<and> \<not> wordness (first_cu R')))"
  (is "?L \<longleftrightarrow> ?R")
proof
  assume L: ?L
  let ?p = "[114, 250, 112, 101, 97, 115] :: jsstring"
  from L have b1: "boundary prev (first_cu s)" by (simp add: match_at_def)
  from L obtain R' where lm: "lit_match ?p s = Some R'"
    and b2: "boundary (Some (s ! (length ?p - 1))) (first_cu R')"
    unfolding match_at_def by (auto split: option.splits)
  from lit_p5[OF lm] obtain x u p e a ss where s: "s = x # u # p # e # a # ss # R'"
    and cs: "canonicalize x = 82" "canonicalize u = 218" "canonicalize p = 80"
    "canonicalize e = 69" "canonicalize a = 65" "canonicalize ss = 83" by blast
  from cs have xw: "is_word_char x" and sw: "is_word_char ss"
    using canon_word_82_83 by blast+
  from b1 s xw have np: "\<not> wordness prev" by (simp add: boundary_def first_cu_def wordness_def)
  from s have "s ! (length ?p - 1) = ss" by simp
  with b2 sw have R': "\<not> wordness (first_cu R')" by (simp add: boundary_def wordness_def)
  from cs have m: "ci_eq [p, e, a, ss] [112, 101, 97, 115]" by (simp add: ci_eq_def canonicalize_def)
  from s have "s = x # u # ([p, e, a, ss] @ R')" by simp
  with cs(1,2) m R' np show ?R by blast
next
  assume ?R
  then obtain x u m R' where np: "\<not> wordness prev" and s: "s = x # u # m @ R'"
    and x: "canonicalize x = 82" and u: "canonicalize u = 218"
    and m: "ci_eq m [112, 101, 97, 115]" and R': "\<not> wordness (first_cu R')" by blast
  from m obtain p e a ss where mm: "m = [p, e, a, ss]"
    by (auto simp: ci_eq_def map_eq_Cons_conv)
  with m have cs: "canonicalize p = 80" "canonicalize e = 69" "canonicalize a = 65" "canonicalize ss = 83"
    by (simp_all add: ci_eq_def canonicalize_def)
  from x cs have xw: "is_word_char x" and sw: "is_word_char ss"
    using canon_word_82_83 by blast+
  have c: "canonicalize 114 = 82" "canonicalize 250 = 218" "canonicalize 112 = 80"
    "canonicalize 101 = 69" "canonicalize 97 = 65" "canonicalize 115 = 83"
    by (simp_all add: canonicalize_def)
  have lm: "lit_match [114, 250, 112, 101, 97, 115] s = Some R'"
    using s mm x u cs by (simp add: c)
  have b1: "boundary prev (first_cu s)"
    using s np xw by (simp add: boundary_def first_cu_def wordness_def)
  have "s ! (length [114, 250, 112, 101, 97, 115::nat] - 1) = ss" using s mm by simp
  with sw R' have b2: "boundary (Some (s ! (length [114, 250, 112, 101, 97, 115::nat] - 1))) (first_cu R')"
    by (simp add: boundary_def wordness_def)
  from lm b1 b2 show ?L unfolding match_at_def by simp
qed

lemma not_wordness_first: "\<not> wordness (first_cu R) \<longleftrightarrow> R = [] \<or> \<not> is_word_char (hd R)"
  by (cases R) (simp_all add: first_cu_def wordness_def)

lemma match_win5:
  assumes c: "canon chs" and ctx: "ok_ctx prev chs"
  shows "match_at [114, 250, 112, 101, 97, 115] prev (concat chs) = win5 chs"
proof
  assume w: "win5 chs"
  then obtain a b cc rest where chs: "chs = a # b # cc # rest"
    by (cases chs rule: win5.cases) auto
  with w have a: "ci_eq a [114]" and b: "ci_eq b [250]" and cc: "ci_eq cc [112, 101, 97, 115]"
    by simp_all
  from a obtain x where x: "a = [x]" "canonicalize x = 82"
    by (auto simp: ci_eq_single canonicalize_def)
  from b obtain u where u: "b = [u]" "canonicalize u = 218"
    by (auto simp: ci_eq_single canonicalize_def)
  from x have "is_word_char x" using canon_word_82_83 by blast
  with x have "word_chunk a" by (simp add: single_class)
  with ctx chs have np: "\<not> wordness prev" by (auto simp: ok_ctx_def word_not_sep)
  have "word_chunk [112, 101, 97, 115]" by (simp add: word_chunk_def is_word_char_def)
  with cc have cw: "word_chunk cc" using word_chunk_ci by blast
  from c chs have c2: "canon (cc # rest)" using canon_tail by blast
  with cw have "rest = [] \<or> sep_chunk (hd rest)" using canon_Cons by blast
  then have "\<not> wordness (first_cu (concat rest))"
    using concat_sep_head[of rest] by (simp add: not_wordness_first)
  with cc have "\<exists>m R'. cc @ concat rest = m @ R' \<and> ci_eq m [112, 101, 97, 115] \<and> \<not> wordness (first_cu R')"
    by blast
  with np x u chs show "match_at [114, 250, 112, 101, 97, 115] prev (concat chs)"
    unfolding match_p5 by simp
next
  assume "match_at [114, 250, 112, 101, 97, 115] prev (concat chs)"
  then obtain x u m R' where np: "\<not> wordness prev" and s: "concat chs = x # u # m @ R'"
    and x: "canonicalize x = 82" and u: "canonicalize u = 218"
    and m: "ci_eq m [112, 101, 97, 115]" and R': "\<not> wordness (first_cu R')"
    unfolding match_p5 by blast
  from x have xw: "is_word_char x" using canon_word_82_83 by blast
  from u have uw: "\<not> is_word_char u" by (auto simp: canon_218 is_word_char_def)
  have pw: "word_chunk [112, 101, 97, 115]" by (simp add: word_chunk_def is_word_char_def)
  with m have mw: "word_chunk m" using word_chunk_ci by blast
  from s obtain a rest where chs: "chs = a # rest" by (cases chs) auto
  from c chs have cls: "word_chunk a \<or> sep_chunk a" and cr: "canon rest"
    and nxt: "word_chunk a \<longrightarrow> rest = [] \<or> sep_chunk (hd rest)"
    using canon_Cons by blast+
  from cls have ane: "a \<noteq> []" by (rule chunk_nonempty)
  with s chs obtain a' where a: "a = x # a'" by (cases a) auto
  have a'e: "a' = []"
  proof (rule ccontr)
    assume "a' \<noteq> []"
    then obtain z a'' where "a' = z # a''" by (cases a') auto
    with a s chs have "a = x # u # a''" by simp
    from chunk_two_word[OF cls this] uw show False by simp
  qed
  with a xw have aw: "word_chunk a" by (simp add: single_class)
  from a a'e s chs have s2: "concat rest = u # m @ R'" by simp
  then have "rest \<noteq> []" by auto
  with aw nxt have "sep_chunk (hd rest)" by simp
  then obtain u' where "hd rest = [u']" by (auto simp: sep_chunk_def)
  with \<open>rest \<noteq> []\<close> obtain rest1 where rest: "rest = [u'] # rest1" by (cases rest) auto
  with s2 have u': "u' = u" and s3: "concat rest1 = m @ R'" by simp_all
  from cr rest have cr1: "canon rest1" using canon_tail by blast
  from mw have mne: "m \<noteq> []" and mh: "is_word_char (hd m)"
    by (cases m; simp add: word_chunk_def)+
  from s3 mne obtain cc rest2 where rest1: "rest1 = cc # rest2" by (cases rest1) auto
  from cr1 rest1 have cls2: "word_chunk cc \<or> sep_chunk cc" and cr2: "canon rest2"
    and nxt2: "word_chunk cc \<longrightarrow> rest2 = [] \<or> sep_chunk (hd rest2)"
    using canon_Cons by blast+
  from cls2 have "cc \<noteq> []" by (rule chunk_nonempty)
  with s3 rest1 mne have "hd cc = hd m" by (cases cc; cases m) auto
  with mh cls2 \<open>cc \<noteq> []\<close> have cw: "word_chunk cc"
    by (cases cc) (auto simp: sep_chunk_def)
  with nxt2 have "concat rest2 = [] \<or> \<not> is_word_char (hd (concat rest2))"
    using concat_sep_head by blast
  moreover from R' have "R' = [] \<or> \<not> is_word_char (hd R')" by (simp add: not_wordness_first)
  moreover from s3 rest1 have "cc @ concat rest2 = m @ R'" by simp
  moreover from cw mw have "list_all is_word_char cc" "list_all is_word_char m"
    by (simp_all add: word_chunk_def)
  ultimately have "cc = m" using run_unique by blast
  moreover from a a'e x have "ci_eq a [114]" by (simp add: ci_eq_single canonicalize_def)
  moreover from u have "ci_eq [u] [250]" by (simp add: ci_eq_single canonicalize_def)
  ultimately show "win5 chs" using chs rest u' rest1 m by simp
qed

lemma replace_chunks_s5:
  "canon chs \<Longrightarrow> ok_ctx prev chs \<Longrightarrow>
     regex_replace [114, 250, 112, 101, 97, 115] [114, 117, 112, 101, 101, 115] prev (concat chs)
       = concat (s5 chs)"
proof (induction chs arbitrary: prev rule: s5.induct)
  case 1
  then show ?case by simp
next
  case (2 a rest)
  note c = \<open>canon (a # rest)\<close> and ctx = \<open>ok_ctx prev (a # rest)\<close>
  show ?case
  proof (cases "win5 (a # rest)")
    case True
    then obtain b cc rest' where rest: "rest = b # cc # rest'"
      by (cases "a # rest" rule: win5.cases) auto
    with True have "ci_eq a [114]" "ci_eq b [250]" and cc: "ci_eq cc [112, 101, 97, 115]"
      by simp_all
    then obtain x u where xu: "a = [x]" "b = [u]" by (auto simp: ci_eq_single)
    from cc obtain p e aa ss where ccv: "cc = [p, e, aa, ss]"
      by (auto simp: ci_eq_def map_eq_Cons_conv)
    have "word_chunk [112, 101, 97, 115]" by (simp add: word_chunk_def is_word_char_def)
    with cc have cw: "word_chunk cc" using word_chunk_ci by blast
    from c rest have c2: "canon (cc # rest')"
      using canon_tail[of a rest] canon_tail[of b "cc # rest'"] by simp
    then have c': "canon (drop 2 rest)" using rest canon_tail by simp
    from c2 cw have "rest' = [] \<or> sep_chunk (hd rest')" using canon_Cons by blast
    then have ctx': "ok_ctx (Some ss) (drop 2 rest)" using rest by (simp add: ok_ctx_def)
    from match_win5[OF c ctx] True
    have "match_at [114, 250, 112, 101, 97, 115] prev (x # u # p # e # aa # ss # concat rest')"
      using xu ccv rest by simp
    from replace_match[OF this]
    have "regex_replace [114, 250, 112, 101, 97, 115] [114, 117, 112, 101, 101, 115] prev (concat (a # rest))
        = [114, 117, 112, 101, 101, 115]
          @ regex_replace [114, 250, 112, 101, 97, 115] [114, 117, 112, 101, 101, 115] (Some ss)
              (concat (drop 2 rest))"
      using xu ccv rest by simp
    also have "\<dots> = [114, 117, 112, 101, 101, 115] @ concat (s5 (drop 2 rest))"
      using "2.IH"(1)[OF True c' ctx'] by simp
    finally show ?thesis using True by (simp add: s5.simps(2))
  next
    case False
    with match_win5[OF c ctx]
    have "\<not> match_at [114, 250, 112, 101, 97, 115] prev (concat (a # rest))" by simp
    from head_step[OF c this, of "[114, 117, 112, 101, 101, 115]"]
      "2.IH"(2)[OF False canon_tail[OF c]] False
    show ?thesis by (simp add: s5.simps(2))
  qed
qed

lemma canon_nonword_222: "canonicalize b = 222 \<Longrightarrow> \<not> is_word_char b"
  by (auto simp: canon_222 is_word_char_def)

lemma canon_nonword_208: "canonicalize d = 208 \<Longrightarrow> \<not> is_word_char d"
  by (auto simp: canon_208 is_word_char_def)

lemma canon_word_65: "canonicalize a = 65 \<Longrightarrow> is_word_char a"
  by (auto simp: canon_65 is_word_char_def)

lemma match_p8:
  "match_at [254, 97, 240] prev s \<longleftrightarrow>
     wordness prev \<and>
     (\<exists>b a d R. s = b # a # d # R \<and> canonicalize b = 222 \<and> canonicalize a = 65 \<and>
        canonicalize d = 208 \<and> wordness (first_cu R))"
  (is "?L \<longleftrightarrow> ?R")
proof
  assume L: ?L
  let ?p = "[254, 97, 240] :: jsstring"
  have c: "canonicalize 254 = 222" "canonicalize 97 = 65" "canonicalize 240 = 208"
    by (simp_all add: canonicalize_def)
  from L have b1: "boundary prev (first_cu s)" by (simp add: match_at_def)
  from L obtain R where lm: "lit_match ?p s = Some R"
    and b2: "boundary (Some (s ! (length ?p - 1))) (first_cu R)"
    unfolding match_at_def by (auto split: option.splits)
  from lm obtain b s1 where 1: "s = b # s1" "canonicalize b = 222" "lit_match [97, 240] s1 = Some R"
    by (cases s) (auto simp: c split: if_splits)
  from 1(3) obtain a s2 where 2: "s1 = a # s2" "canonicalize a = 65" "lit_match [240] s2 = Some R"
    by (cases s1) (auto simp: c split: if_splits)
  from 2(3) obtain d where 3: "s2 = d # R" "canonicalize d = 208"
    by (cases s2) (auto simp: c split: if_splits)
  from 1 2 3 have s: "s = b # a # d # R" by simp
  from b1 s canon_nonword_222[OF 1(2)] have wp: "wordness prev"
    by (simp add: boundary_def first_cu_def wordness_def)
  from s have "s ! (length ?p - 1) = d" by simp
  with b2 canon_nonword_208[OF 3(2)] have "wordness (first_cu R)"
    by (simp add: boundary_def wordness_def)
  with wp s 1(2) 2(2) 3(2) show ?R by blast
next
  assume ?R
  then obtain b a d R where wp: "wordness prev" and s: "s = b # a # d # R"
    and cs: "canonicalize b = 222" "canonicalize a = 65" "canonicalize d = 208"
    and R: "wordness (first_cu R)" by blast
  have c: "canonicalize 254 = 222" "canonicalize 97 = 65" "canonicalize 240 = 208"
    by (simp_all add: canonicalize_def)
  have lm: "lit_match [254, 97, 240] s = Some R" using s cs by (simp add: c)
  have b1: "boundary prev (first_cu s)"
    using s wp canon_nonword_222[OF cs(1)] by (simp add: boundary_def first_cu_def wordness_def)
  have "s ! (length [254, 97, 240::nat] - 1) = d" using s by simp
  with R canon_nonword_208[OF cs(3)]
  have b2: "boundary (Some (s ! (length [254, 97, 240::nat] - 1))) (first_cu R)"
    by (simp add: boundary_def wordness_def)
  from lm b1 b2 show ?L unfolding match_at_def by simp
qed

lemma word_chunk_last: "word_chunk w \<Longrightarrow> is_word_char (last w)"
  by (auto simp: word_chunk_def list_all_iff)

lemma no_match_p8_word_head:
  assumes "word_chunk w"
  shows "\<not> match_at [254, 97, 240] prev (concat (w # rest))"
proof
  assume "match_at [254, 97, 240] prev (concat (w # rest))"
  then obtain b R where "concat (w # rest) = b # R" "canonicalize b = 222"
    unfolding match_p8 by blast
  with assms have "is_word_char b" by (cases w) (auto simp: word_chunk_def)
  with \<open>canonicalize b = 222\<close> show False using canon_nonword_222 by blast
qed

lemma match_win8:
  assumes c: "canon (w # rest)" and w: "word_chunk w"
  shows "match_at [254, 97, 240] (Some (last w)) (concat rest) = win8 (w # rest)"
proof
  assume wn: "win8 (w # rest)"
  then obtain b a d cc rest' where rest: "rest = b # a # d # cc # rest'"
    by (cases "w # rest" rule: win8.cases) auto
  with wn have "ci_eq b [254]" "ci_eq a [97]" "ci_eq d [240]" and cw: "word_chunk cc" by simp_all
  then obtain y1 x y where v: "b = [y1]" "a = [x]" "d = [y]"
    "canonicalize y1 = 222" "canonicalize x = 65" "canonicalize y = 208"
    by (auto simp: ci_eq_single canonicalize_def)
  from c rest have "canon (cc # rest')"
    using canon_tail[of w rest] canon_tail[of b "a # d # cc # rest'"]
      canon_tail[of a "d # cc # rest'"] canon_tail[of d "cc # rest'"] by simp
  from first_cu_concat[OF this] cw have "wordness (first_cu (concat (cc # rest')))" by simp
  moreover from w have "wordness (Some (last w))" using word_chunk_last by (simp add: wordness_def)
  ultimately show "match_at [254, 97, 240] (Some (last w)) (concat rest)"
    unfolding match_p8 using v rest by simp
next
  assume "match_at [254, 97, 240] (Some (last w)) (concat rest)"
  then obtain b a d R where s: "concat rest = b # a # d # R"
    and cs: "canonicalize b = 222" "canonicalize a = 65" "canonicalize d = 208"
    and R: "wordness (first_cu R)" unfolding match_p8 by blast
  from c w have cr: "canon rest" and nxt: "rest = [] \<or> sep_chunk (hd rest)"
    using canon_Cons by blast+
  from s have "rest \<noteq> []" by auto
  with nxt obtain b' rest1 where rest: "rest = [b'] # rest1"
    by (cases rest) (auto simp: sep_chunk_def)
  with s have b': "b' = b" and s1: "concat rest1 = a # d # R" by simp_all
  from cr rest have cr1: "canon rest1" using canon_tail by blast
  from s1 obtain c2 rest2 where rest1: "rest1 = c2 # rest2" by (cases rest1) auto
  from cr1 rest1 have cls2: "word_chunk c2 \<or> sep_chunk c2" and cr2: "canon rest2"
    and nxt2: "word_chunk c2 \<longrightarrow> rest2 = [] \<or> sep_chunk (hd rest2)"
    using canon_Cons by blast+
  from cls2 have "c2 \<noteq> []" by (rule chunk_nonempty)
  with s1 rest1 obtain c2' where c2: "c2 = a # c2'" by (cases c2) auto
  have c2'e: "c2' = []"
  proof (rule ccontr)
    assume "c2' \<noteq> []"
    then obtain z c2'' where "c2' = z # c2''" by (cases c2') auto
    with c2 s1 rest1 have "c2 = a # d # c2''" by simp
    from chunk_two_word[OF cls2 this] canon_nonword_208[OF cs(3)] show False by simp
  qed
  with c2 canon_word_65[OF cs(2)] have c2w: "word_chunk c2" by (simp add: single_class)
  from c2 c2'e s1 rest1 have s2: "concat rest2 = d # R" by simp
  then have "rest2 \<noteq> []" by auto
  with c2w nxt2 obtain d' rest3 where rest2: "rest2 = [d'] # rest3"
    by (cases rest2) (auto simp: sep_chunk_def)
  with s2 have d': "d' = d" and s3: "concat rest3 = R" by simp_all
  from cr2 rest2 have "canon rest3" using canon_tail by blast
  from first_cu_concat[OF this] R s3 have "rest3 \<noteq> [] \<and> word_chunk (hd rest3)" by simp
  then obtain cc rest4 where rest3: "rest3 = cc # rest4" "word_chunk cc" by (cases rest3) auto
  from cs have "ci_eq [b] [254]" "ci_eq [a] [97]" "ci_eq [d] [240]"
    by (simp_all add: ci_eq_single canonicalize_def)
  with w rest b' rest1 c2 c2'e rest2 d' rest3 show "win8 (w # rest)" by simp
qed

lemma replace_chunks_s8:
  "canon chs \<Longrightarrow> ok_ctx prev chs \<Longrightarrow>
   \<not> (wordness prev \<and> match_at [254, 97, 240] prev (concat chs)) \<Longrightarrow>
     regex_replace [254, 97, 240] [116, 111] prev (concat chs) = concat (s8 chs)"
proof (induction chs arbitrary: prev rule: s8.induct)
  case 1
  then show ?case by simp
next
  case (2 w rest)
  note c = \<open>canon (w # rest)\<close> and ctx = \<open>ok_ctx prev (w # rest)\<close>
    and nm = \<open>\<not> (wordness prev \<and> match_at [254, 97, 240] prev (concat (w # rest)))\<close>
  from c have cls: "word_chunk w \<or> sep_chunk w" and cr: "canon rest" using canon_Cons by blast+
  have nmh: "\<not> match_at [254, 97, 240] prev (concat (w # rest))"
  proof (cases "word_chunk w")
    case True
    then show ?thesis by (rule no_match_p8_word_head)
  next
    case False
    with cls obtain x where x: "w = [x]" "\<not> is_word_char x" by (auto simp: sep_chunk_def)
    show ?thesis
    proof (cases "wordness prev")
      case True
      with nm show ?thesis by simp
    next
      case False
      with x show ?thesis using no_match_np_sep[of prev x] by simp
    qed
  qed
  from head_step[OF c nmh, of "[116, 111]"]
  have hs: "regex_replace [254, 97, 240] [116, 111] prev (concat (w # rest))
      = w @ regex_replace [254, 97, 240] [116, 111] (Some (last w)) (concat rest)"
    and ctx1: "ok_ctx (Some (last w)) rest" by simp_all
  show ?case
  proof (cases "win8 (w # rest)")
    case True
    then obtain b a d cc rest' where rest: "rest = b # a # d # cc # rest'"
      by (cases "w # rest" rule: win8.cases) auto
    with True have w: "word_chunk w" and "ci_eq b [254]" "ci_eq a [97]" "ci_eq d [240]"
      by simp_all
    then obtain y1 x y where v: "b = [y1]" "a = [x]" "d = [y]" "canonicalize y = 208"
      by (auto simp: ci_eq_single canonicalize_def)
    from canon_nonword_208[OF v(4)] have ctx': "ok_ctx (Some y) (drop 3 rest)"
      and nw: "\<not> wordness (Some y)" by (simp_all add: ok_ctx_def wordness_def)
    from cr rest have c': "canon (drop 3 rest)"
      using canon_tail[of b "a # d # cc # rest'"]
        canon_tail[of a "d # cc # rest'"] canon_tail[of d "cc # rest'"] by simp
    from match_win8[OF c w] True
    have "match_at [254, 97, 240] (Some (last w)) (y1 # x # y # concat (cc # rest'))"
      using v rest by simp
    from replace_match[OF this]
    have "regex_replace [254, 97, 240] [116, 111] (Some (last w)) (concat rest)
        = [116, 111] @ regex_replace [254, 97, 240] [116, 111] (Some y) (concat (drop 3 rest))"
      using v rest by simp
    also have "\<dots> = [116, 111] @ concat (s8 (drop 3 rest))"
      using "2.IH"(1)[OF True c' ctx'] nw by simp
    finally show ?thesis using True hs by (simp add: s8.simps(2) concat_prep)
  next
    case False
    have "\<not> (wordness (Some (last w)) \<and> match_at [254, 97, 240] (Some (last w)) (concat rest))"
    proof (cases "word_chunk w")
      case True
      from match_win8[OF c True] False show ?thesis by simp
    next
      case False
      with cls obtain x where "w = [x]" "\<not> is_word_char x" by (auto simp: sep_chunk_def)
      then show ?thesis by (simp add: wordness_def)
    qed
    from "2.IH"(2)[OF False cr ctx1 this] hs False show ?thesis by (simp add: s8.simps(2))
  qed
qed

lemma win9_word: "win9 (a # rest) \<Longrightarrow> word_chunk a"
proof -
  assume w: "win9 (a # rest)"
  then obtain d cc rest' where "rest = d # cc # rest'"
    by (cases "a # rest" rule: win9.cases) auto
  with w have "ci_eq a [97]" by simp
  moreover have "word_chunk [97]" by (simp add: word_chunk_def is_word_char_def)
  ultimately show ?thesis using word_chunk_ci by blast
qed

lemma win8_word: "win8 (a # rest) \<Longrightarrow> word_chunk a"
  by (cases "a # rest" rule: win8.cases) auto

lemma win5_word: "win5 (a # rest) \<Longrightarrow> word_chunk a"
proof -
  assume w: "win5 (a # rest)"
  then obtain d cc rest' where "rest = d # cc # rest'"
    by (cases "a # rest" rule: win5.cases) auto
  with w have "ci_eq a [114]" by simp
  moreover have "word_chunk [114]" by (simp add: word_chunk_def is_word_char_def)
  ultimately show ?thesis using word_chunk_ci by blast
qed

lemma s9_sep_head: "rest = [] \<or> sep_chunk (hd rest) \<Longrightarrow> s9 rest = [] \<or> sep_chunk (hd (s9 rest))"
  using win9_word word_not_sep by (cases rest) (auto simp: s9.simps(2))

lemma s8_sep_head: "rest = [] \<or> sep_chunk (hd rest) \<Longrightarrow> s8 rest = [] \<or> sep_chunk (hd (s8 rest))"
  using win8_word word_not_sep by (cases rest) (auto simp: s8.simps(2))

lemma s5_sep_head: "rest = [] \<or> sep_chunk (hd rest) \<Longrightarrow> s5 rest = [] \<or> sep_chunk (hd (s5 rest))"
  using win5_word word_not_sep by (cases rest) (auto simp: s5.simps(2))

lemma word_chunk_append: "word_chunk u \<Longrightarrow> word_chunk h \<Longrightarrow> word_chunk (u @ h)"
  by (simp add: word_chunk_def)

lemma prep_word_head:
  "word_chunk u \<Longrightarrow> ys = [] \<or> word_chunk (hd ys) \<Longrightarrow>
     prep u ys \<noteq> [] \<and> word_chunk (hd (prep u ys))"
  by (cases ys) (auto simp: prep_def word_chunk_append)

lemma canon_prep:
  "canon ys \<Longrightarrow> ys = [] \<or> word_chunk (hd ys) \<Longrightarrow> word_chunk u \<Longrightarrow> canon (prep u ys)"
proof (cases ys)
  case Nil
  assume "word_chunk u"
  with Nil show ?thesis by (simp add: prep_def)
next
  case (Cons h t)
  assume c: "canon ys" and h: "ys = [] \<or> word_chunk (hd ys)" and u: "word_chunk u"
  from c h Cons have "canon t" "t = [] \<or> sep_chunk (hd t)" using canon_Cons[of h t] by simp_all
  moreover from h u Cons have "word_chunk (u @ h)" by (simp add: word_chunk_append)
  ultimately show ?thesis using Cons canon_ConsI[of t "u @ h"] by (simp add: prep_def)
qed

lemma to_word: "word_chunk [116, 111]"
  by (simp add: word_chunk_def is_word_char_def)

lemma s9_word_head:
  "chs \<noteq> [] \<Longrightarrow> word_chunk (hd chs) \<Longrightarrow> s9 chs \<noteq> [] \<and> word_chunk (hd (s9 chs))"
proof (induction chs rule: s9.induct)
  case 1
  then show ?case by simp
next
  case (2 a rest)
  show ?case
  proof (cases "win9 (a # rest)")
    case True
    then obtain d cc rest' where rest: "rest = d # cc # rest'" and "word_chunk cc"
      by (cases "a # rest" rule: win9.cases) auto
    with "2.IH"(1)[OF True] have "s9 (tl rest) = [] \<or> word_chunk (hd (s9 (tl rest)))" by simp
    from prep_word_head[OF to_word this] True show ?thesis by (simp add: s9.simps(2))
  next
    case False
    with "2.prems" show ?thesis by (simp add: s9.simps(2))
  qed
qed

lemma s8_word_head:
  "chs \<noteq> [] \<Longrightarrow> word_chunk (hd chs) \<Longrightarrow> s8 chs \<noteq> [] \<and> word_chunk (hd (s8 chs))"
proof (induction chs rule: s8.induct)
  case 1
  then show ?case by simp
next
  case (2 w rest)
  show ?case
  proof (cases "win8 (w # rest)")
    case True
    then obtain b a d cc rest' where rest: "rest = b # a # d # cc # rest'" and "word_chunk cc"
      by (cases "w # rest" rule: win8.cases) auto
    with "2.IH"(1)[OF True] have "s8 (drop 3 rest) = [] \<or> word_chunk (hd (s8 (drop 3 rest)))"
      by simp
    moreover from "2.prems" have "word_chunk (w @ [116, 111])"
      using word_chunk_append to_word by simp
    ultimately show ?thesis using prep_word_head True by (simp add: s8.simps(2))
  next
    case False
    with "2.prems" show ?thesis by (simp add: s8.simps(2))
  qed
qed

lemma canon_s9: "canon chs \<Longrightarrow> canon (s9 chs)"
proof (induction chs rule: s9.induct)
  case 1
  then show ?case by simp
next
  case (2 a rest)
  note c = \<open>canon (a # rest)\<close>
  show ?case
  proof (cases "win9 (a # rest)")
    case True
    then obtain d cc rest' where rest: "rest = d # cc # rest'" and cw: "word_chunk cc"
      by (cases "a # rest" rule: win9.cases) auto
    from c rest have "canon (tl rest)"
      using canon_tail[of a rest] canon_tail[of d "cc # rest'"] by simp
    with "2.IH"(1)[OF True] have "canon (s9 (tl rest))" by simp
    moreover from rest cw have "s9 (tl rest) = [] \<or> word_chunk (hd (s9 (tl rest)))"
      using s9_word_head[of "tl rest"] by simp
    ultimately show ?thesis using canon_prep to_word True by (simp add: s9.simps(2))
  next
    case False
    from canon_Cons[OF c] have cr: "canon rest" and cls: "word_chunk a \<or> sep_chunk a"
      and nxt: "word_chunk a \<longrightarrow> rest = [] \<or> sep_chunk (hd rest)" by simp_all
    from "2.IH"(2)[OF False cr] have "canon (s9 rest)" .
    moreover from cls nxt have
      "sep_chunk a \<or> (word_chunk a \<and> (s9 rest = [] \<or> sep_chunk (hd (s9 rest))))"
      using s9_sep_head[of rest] by blast
    ultimately show ?thesis using canon_ConsI False by (simp add: s9.simps(2))
  qed
qed

lemma canon_s8: "canon chs \<Longrightarrow> canon (s8 chs)"
proof (induction chs rule: s8.induct)
  case 1
  then show ?case by simp
next
  case (2 w rest)
  note c = \<open>canon (w # rest)\<close>
  show ?case
  proof (cases "win8 (w # rest)")
    case True
    then obtain b a d cc rest' where rest: "rest = b # a # d # cc # rest'" and cw: "word_chunk cc"
      and ww: "word_chunk w"
      by (cases "w # rest" rule: win8.cases) auto
    from c rest have "canon (drop 3 rest)"
      using canon_tail[of w rest] canon_tail[of b "a # d # cc # rest'"]
        canon_tail[of a "d # cc # rest'"] canon_tail[of d "cc # rest'"] by simp
    with "2.IH"(1)[OF True] have "canon (s8 (drop 3 rest))" by simp
    moreover from rest cw have "s8 (drop 3 rest) = [] \<or> word_chunk (hd (s8 (drop 3 rest)))"
      using s8_word_head[of "drop 3 rest"] by simp
    moreover from ww have "word_chunk (w @ [116, 111])" using word_chunk_append to_word by simp
    ultimately show ?thesis using canon_prep True by (simp add: s8.simps(2))
  next
    case False
    from canon_Cons[OF c] have cr: "canon rest" and cls: "word_chunk w \<or> sep_chunk w"
      and nxt: "word_chunk w \<longrightarrow> rest = [] \<or> sep_chunk (hd rest)" by simp_all
    from "2.IH"(2)[OF False cr] have "canon (s8 rest)" .
    moreover from cls nxt have
      "sep_chunk w \<or> (word_chunk w \<and> (s8 rest = [] \<or> sep_chunk (hd (s8 rest))))"
      using s8_sep_head[of rest] by blast
    ultimately show ?thesis using canon_ConsI False by (simp add: s8.simps(2))
  qed
qed

lemma canon_s5: "canon chs \<Longrightarrow> canon (s5 chs)"
proof (induction chs rule: s5.induct)
  case 1
  then show ?case by simp
next
  case (2 a rest)
  note c = \<open>canon (a # rest)\<close>
  show ?case
  proof (cases "win5 (a # rest)")
    case True
    then obtain b cc rest' where rest: "rest = b # cc # rest'" and cc: "ci_eq cc [112, 101, 97, 115]"
      by (cases "a # rest" rule: win5.cases) auto
    have "word_chunk [112, 101, 97, 115]" by (simp add: word_chunk_def is_word_char_def)
    with cc have cw: "word_chunk cc" using word_chunk_ci by blast
    from c rest have c2: "canon (cc # rest')"
      using canon_tail[of a rest] canon_tail[of b "cc # rest'"] by simp
    with cw have cr': "canon rest'" and "rest' = [] \<or> sep_chunk (hd rest')"
      using canon_Cons by blast+
    then have "s5 rest' = [] \<or> sep_chunk (hd (s5 rest'))" using s5_sep_head by blast
    moreover from "2.IH"(1)[OF True] cr' rest have "canon (s5 rest')" by simp
    moreover have "word_chunk [114, 117, 112, 101, 101, 115]"
      by (simp add: word_chunk_def is_word_char_def)
    ultimately show ?thesis using canon_ConsI True rest by (simp add: s5.simps(2))
  next
    case False
    from canon_Cons[OF c] have cr: "canon rest" and cls: "word_chunk a \<or> sep_chunk a"
      and nxt: "word_chunk a \<longrightarrow> rest = [] \<or> sep_chunk (hd rest)" by simp_all
    from "2.IH"(2)[OF False cr] have "canon (s5 rest)" .
    moreover from cls nxt have
      "sep_chunk a \<or> (word_chunk a \<and> (s5 rest = [] \<or> sep_chunk (hd (s5 rest))))"
      using s5_sep_head[of rest] by blast
    ultimately show ?thesis using canon_ConsI False by (simp add: s5.simps(2))
  qed
qed

subsection \<open>Texts without a match\<close>

text \<open>A chunk with the letter t, and chunks with a match of a pattern somewhere.\<close>

definition has_t :: "jsstring \<Rightarrow> bool" where
  "has_t ch = (84 \<in> set (map canonicalize ch))"

fun has9 :: "jsstring list \<Rightarrow> bool" where
  "has9 [] = False"
| "has9 (a # rest) = (win9 (a # rest) \<or> has9 rest)"

fun has8 :: "jsstring list \<Rightarrow> bool" where
  "has8 [] = False"
| "has8 (a # rest) = (win8 (a # rest) \<or> has8 rest)"

fun has5 :: "jsstring list \<Rightarrow> bool" where
  "has5 [] = False"
| "has5 (a # rest) = (win5 (a # rest) \<or> has5 rest)"

lemma s9_id: "\<not> has9 chs \<Longrightarrow> s9 chs = chs"
  by (induction chs) (simp_all add: s9.simps(2))

lemma s8_id: "\<not> has8 chs \<Longrightarrow> s8 chs = chs"
  by (induction chs) (simp_all add: s8.simps(2))

lemma s5_id: "\<not> has5 chs \<Longrightarrow> s5 chs = chs"
  by (induction chs) (simp_all add: s5.simps(2))

lemma has9_drop: "has9 (drop n chs) \<Longrightarrow> has9 chs"
proof (induction chs arbitrary: n)
  case Nil
  then show ?case by simp
next
  case (Cons a chs)
  then show ?case by (cases n) auto
qed

lemma has5_drop: "has5 (drop n chs) \<Longrightarrow> has5 chs"
proof (induction chs arbitrary: n)
  case Nil
  then show ?case by simp
next
  case (Cons a chs)
  then show ?case by (cases n) auto
qed

lemma has8_has9: "has8 chs \<Longrightarrow> has9 chs"
proof (induction chs)
  case Nil
  then show ?case by simp
next
  case (Cons w rest)
  show ?case
  proof (cases "win8 (w # rest)")
    case True
    then obtain b a d cc rest' where rest: "rest = b # a # d # cc # rest'"
      by (cases "w # rest" rule: win8.cases) auto
    with True have "win9 (a # d # cc # rest')" by simp
    then have "has9 (drop 2 (w # rest))" using rest by simp
    then show ?thesis by (rule has9_drop)
  next
    case False
    with Cons show ?thesis by simp
  qed
qed

lemma has_t_append: "has_t (u @ h) = (has_t u \<or> has_t h)"
  by (auto simp: has_t_def)

lemma to_has_t: "has_t [116, 111]"
  by (simp add: has_t_def canonicalize_def)

lemma ci_eq_has_t: "ci_eq a b \<Longrightarrow> has_t a = has_t b"
  by (simp add: has_t_def ci_eq_def)

lemma prep_head:
  "prep u ys = y # ys' \<Longrightarrow> has_t u \<Longrightarrow> has_t y"
  by (cases ys) (auto simp: prep_def has_t_append)

lemma s9_head_stable:
  assumes "s9 chs = y # ys" "\<not> has_t y"
  shows "\<exists>r. chs = y # r \<and> s9 r = ys"
proof (cases chs)
  case Nil
  with assms show ?thesis by simp
next
  case (Cons x r)
  show ?thesis
  proof (cases "win9 (x # r)")
    case True
    with assms(1) Cons have "prep [116, 111] (s9 (tl r)) = y # ys" by (simp add: s9.simps(2))
    from prep_head[OF this to_has_t] assms(2) show ?thesis by simp
  next
    case False
    with assms(1) Cons show ?thesis by (simp add: s9.simps(2))
  qed
qed

lemma s8_head_stable:
  assumes "s8 chs = y # ys" "\<not> has_t y"
  shows "\<exists>r. chs = y # r \<and> s8 r = ys"
proof (cases chs)
  case Nil
  with assms show ?thesis by simp
next
  case (Cons x r)
  show ?thesis
  proof (cases "win8 (x # r)")
    case True
    with assms(1) Cons have "prep (x @ [116, 111]) (s8 (drop 3 r)) = y # ys"
      by (simp add: s8.simps(2))
    moreover have "has_t (x @ [116, 111])" by (simp add: has_t_append to_has_t)
    ultimately have "has_t y" by (rule prep_head)
    with assms(2) show ?thesis by simp
  next
    case False
    with assms(1) Cons show ?thesis by (simp add: s8.simps(2))
  qed
qed

lemma no_t_single:
  "ci_eq d [240] \<Longrightarrow> \<not> has_t d" "ci_eq d [250] \<Longrightarrow> \<not> has_t d" "ci_eq d [97] \<Longrightarrow> \<not> has_t d"
  "ci_eq d [114] \<Longrightarrow> \<not> has_t d" "ci_eq d [254] \<Longrightarrow> \<not> has_t d"
  "ci_eq d [112, 101, 97, 115] \<Longrightarrow> \<not> has_t d"
  by (simp_all add: ci_eq_def has_t_def canonicalize_def)

lemma win9_no_t: "win9 (a # rest) \<Longrightarrow> \<not> has_t a"
  by (cases "a # rest" rule: win9.cases) (auto simp: no_t_single)

lemma win5_no_t: "win5 (a # rest) \<Longrightarrow> \<not> has_t a"
  by (cases "a # rest" rule: win5.cases) (auto simp: no_t_single)

lemma has9_prep: "has_t u \<Longrightarrow> has9 (prep u ys) \<Longrightarrow> has9 ys"
proof (cases ys)
  case Nil
  assume "has9 (prep u ys)"
  with Nil show ?thesis by (simp add: prep_def)
next
  case (Cons h t)
  assume u: "has_t u" and h: "has9 (prep u ys)"
  from u have "has_t (u @ h)" by (simp add: has_t_append)
  then have "\<not> win9 ((u @ h) # t)" using win9_no_t by blast
  with h Cons show ?thesis by (simp add: prep_def)
qed

lemma has5_prep: "has_t u \<Longrightarrow> has5 (prep u ys) \<Longrightarrow> has5 ys"
proof (cases ys)
  case Nil
  assume "has5 (prep u ys)"
  with Nil show ?thesis by (simp add: prep_def)
next
  case (Cons h t)
  assume u: "has_t u" and h: "has5 (prep u ys)"
  from u have "has_t (u @ h)" by (simp add: has_t_append)
  then have "\<not> win5 ((u @ h) # t)" using win5_no_t by blast
  with h Cons show ?thesis by (simp add: prep_def)
qed

lemma win9_s9: "win9 (a # s9 rest) \<Longrightarrow> win9 (a # rest)"
proof -
  assume w: "win9 (a # s9 rest)"
  then obtain d cc t where s: "s9 rest = d # cc # t"
    by (cases "a # s9 rest" rule: win9.cases) auto
  with w have a: "ci_eq a [97]" and d: "ci_eq d [240]" and cw: "word_chunk cc" by simp_all
  from s9_head_stable[OF s no_t_single(1)[OF d]] obtain r0 where r0: "rest = d # r0" "s9 r0 = cc # t"
    by blast
  from r0(2) obtain c0 r1 where r1: "r0 = c0 # r1" by (cases r0) auto
  have "word_chunk c0"
  proof (cases "win9 (c0 # r1)")
    case True
    then show ?thesis by (rule win9_word)
  next
    case False
    with r0(2) r1 cw show ?thesis by (simp add: s9.simps(2))
  qed
  with a d r0 r1 show ?thesis by simp
qed

lemma s9_no_has9: "\<not> has9 (s9 chs)"
proof (induction chs rule: s9.induct)
  case 1
  then show ?case by simp
next
  case (2 a rest)
  show ?case
  proof (cases "win9 (a # rest)")
    case True
    with "2.IH"(1) have "\<not> has9 (s9 (tl rest))" by simp
    with has9_prep[OF to_has_t] True show ?thesis by (auto simp: s9.simps(2))
  next
    case False
    with "2.IH"(2) win9_s9[of a rest] show ?thesis by (auto simp: s9.simps(2))
  qed
qed

lemma win5_s5: "\<not> win5 (a # rest) \<Longrightarrow> \<not> win5 (a # s5 rest)"
proof
  assume nw: "\<not> win5 (a # rest)" and w: "win5 (a # s5 rest)"
  then obtain b cc t where s: "s5 rest = b # cc # t"
    by (cases "a # s5 rest" rule: win5.cases) auto
  with w have a: "ci_eq a [114]" and b: "ci_eq b [250]" and cc: "ci_eq cc [112, 101, 97, 115]"
    by simp_all
  have rup: "\<not> ci_eq [114, 117, 112, 101, 101, 115] [250]"
    "\<not> ci_eq [114, 117, 112, 101, 101, 115] [112, 101, 97, 115]"
    by (simp_all add: ci_eq_def)
  from s obtain b0 r0 where rest: "rest = b0 # r0" by (cases rest) auto
  have nb: "\<not> win5 (b0 # r0)"
  proof
    assume "win5 (b0 # r0)"
    with s rest have "b = [114, 117, 112, 101, 101, 115]" by (simp add: s5.simps(2))
    with b rup show False by simp
  qed
  with s rest have b0: "b0 = b" and s2: "s5 r0 = cc # t" by (simp_all add: s5.simps(2))
  from s2 obtain c0 r1 where r0: "r0 = c0 # r1" by (cases r0) auto
  have "\<not> win5 (c0 # r1)"
  proof
    assume "win5 (c0 # r1)"
    with s2 r0 have "cc = [114, 117, 112, 101, 101, 115]" by (simp add: s5.simps(2))
    with cc rup show False by simp
  qed
  with s2 r0 have "c0 = cc" by (simp add: s5.simps(2))
  with a b cc rest b0 r0 nw show False by simp
qed

lemma s5_no_has5: "\<not> has5 (s5 chs)"
proof (induction chs rule: s5.induct)
  case 1
  then show ?case by simp
next
  case (2 a rest)
  show ?case
  proof (cases "win5 (a # rest)")
    case True
    have "\<not> win5 ([114, 117, 112, 101, 101, 115] # s5 (drop 2 rest))"
    proof
      assume "win5 ([114, 117, 112, 101, 101, 115] # s5 (drop 2 rest))"
      then have "ci_eq [114, 117, 112, 101, 101, 115] [114]"
        by (cases "[114, 117, 112, 101, 101, 115] # s5 (drop 2 rest)" rule: win5.cases) auto
      then show False by (simp add: ci_eq_def)
    qed
    with "2.IH"(1) True show ?thesis by (simp add: s5.simps(2))
  next
    case False
    with "2.IH"(2) win5_s5[of a rest] show ?thesis by (simp add: s5.simps(2))
  qed
qed

lemma win5_s9: "win5 (a # s9 rest) \<Longrightarrow> win5 (a # rest)"
proof -
  assume w: "win5 (a # s9 rest)"
  then obtain b cc t where s: "s9 rest = b # cc # t"
    by (cases "a # s9 rest" rule: win5.cases) auto
  with w have a: "ci_eq a [114]" and b: "ci_eq b [250]" and cc: "ci_eq cc [112, 101, 97, 115]"
    by simp_all
  from s9_head_stable[OF s no_t_single(2)[OF b]] obtain r0 where r0: "rest = b # r0" "s9 r0 = cc # t"
    by blast
  from s9_head_stable[OF r0(2) no_t_single(6)[OF cc]] obtain r1 where "r0 = cc # r1" by blast
  with a b cc r0 show ?thesis by simp
qed

lemma win5_s8: "win5 (a # s8 rest) \<Longrightarrow> win5 (a # rest)"
proof -
  assume w: "win5 (a # s8 rest)"
  then obtain b cc t where s: "s8 rest = b # cc # t"
    by (cases "a # s8 rest" rule: win5.cases) auto
  with w have a: "ci_eq a [114]" and b: "ci_eq b [250]" and cc: "ci_eq cc [112, 101, 97, 115]"
    by simp_all
  from s8_head_stable[OF s no_t_single(2)[OF b]] obtain r0 where r0: "rest = b # r0" "s8 r0 = cc # t"
    by blast
  from s8_head_stable[OF r0(2) no_t_single(6)[OF cc]] obtain r1 where "r0 = cc # r1" by blast
  with a b cc r0 show ?thesis by simp
qed

lemma has5_s9: "has5 (s9 chs) \<Longrightarrow> has5 chs"
proof (induction chs rule: s9.induct)
  case 1
  then show ?case by simp
next
  case (2 a rest)
  show ?case
  proof (cases "win9 (a # rest)")
    case True
    with "2.prems" have "has5 (prep [116, 111] (s9 (tl rest)))" by (simp add: s9.simps(2))
    from has5_prep[OF to_has_t this] "2.IH"(1)[OF True] have "has5 (drop 2 (a # rest))"
      by (simp add: drop_Suc)
    then show ?thesis by (rule has5_drop)
  next
    case False
    with "2.prems" have "win5 (a # s9 rest) \<or> has5 (s9 rest)" by (simp add: s9.simps(2))
    with win5_s9[of a rest] "2.IH"(2)[OF False] show ?thesis by auto
  qed
qed

lemma has5_s8: "has5 (s8 chs) \<Longrightarrow> has5 chs"
proof (induction chs rule: s8.induct)
  case 1
  then show ?case by simp
next
  case (2 w rest)
  show ?case
  proof (cases "win8 (w # rest)")
    case True
    with "2.prems" have "has5 (prep (w @ [116, 111]) (s8 (drop 3 rest)))" by (simp add: s8.simps(2))
    moreover have "has_t (w @ [116, 111])" by (simp add: has_t_append to_has_t)
    ultimately have "has5 (s8 (drop 3 rest))" using has5_prep by blast
    with "2.IH"(1)[OF True] have "has5 (drop 4 (w # rest))" by simp
    then show ?thesis by (rule has5_drop)
  next
    case False
    with "2.prems" have "win5 (w # s8 rest) \<or> has5 (s8 rest)" by (simp add: s8.simps(2))
    with win5_s8[of w rest] "2.IH"(2)[OF False] show ?thesis by auto
  qed
qed

lemma ci_eq_sym: "ci_eq a b \<Longrightarrow> ci_eq b a"
  by (simp add: ci_eq_def)

lemma ci_eq_trans: "ci_eq a b \<Longrightarrow> ci_eq b c \<Longrightarrow> ci_eq a c"
  by (simp add: ci_eq_def)

lemma ci_eq_sub:
  assumes "\<not> ci_eq k v" "\<not> ci_eq r v"
  shows "ci_eq (sub k r x) v = ci_eq x v"
  using assms by (auto simp: sub_def ci_eq_def)

lemma win5_map_sub:
  assumes "\<not> ci_eq k [114]" "\<not> ci_eq r [114]" "\<not> ci_eq k [250]" "\<not> ci_eq r [250]"
    "\<not> ci_eq k [112, 101, 97, 115]" "\<not> ci_eq r [112, 101, 97, 115]"
  shows "win5 (map (sub k r) chs) = win5 chs"
  by (cases chs rule: win5.cases) (simp_all add: ci_eq_sub assms)

lemma has5_map_sub:
  assumes "\<not> ci_eq k [114]" "\<not> ci_eq r [114]" "\<not> ci_eq k [250]" "\<not> ci_eq r [250]"
    "\<not> ci_eq k [112, 101, 97, 115]" "\<not> ci_eq r [112, 101, 97, 115]"
  shows "has5 (map (sub k r) chs) = has5 chs"
proof (induction chs)
  case Nil
  then show ?case by simp
next
  case (Cons a chs)
  from win5_map_sub[OF assms, of "a # chs"] Cons show ?case by simp
qed

lemma win9_map_sub:
  assumes "word_chunk k" "word_chunk r"
    "\<not> ci_eq k [97]" "\<not> ci_eq r [97]" "\<not> ci_eq k [240]" "\<not> ci_eq r [240]"
  shows "win9 (map (sub k r) chs) = win9 chs"
  by (cases chs rule: win9.cases) (simp_all add: ci_eq_sub assms sub_class)

lemma has9_map_sub:
  assumes "word_chunk k" "word_chunk r"
    "\<not> ci_eq k [97]" "\<not> ci_eq r [97]" "\<not> ci_eq k [240]" "\<not> ci_eq r [240]"
  shows "has9 (map (sub k r) chs) = has9 chs"
proof (induction chs)
  case Nil
  then show ?case by simp
next
  case (Cons a chs)
  from win9_map_sub[OF assms, of "a # chs"] Cons show ?case by simp
qed

lemma prep_members: "has_t u \<Longrightarrow> x \<in> set (prep u ys) \<Longrightarrow> has_t x \<or> x \<in> set ys"
  by (cases ys) (auto simp: prep_def has_t_append)

lemma s9_members: "x \<in> set (s9 chs) \<Longrightarrow> has_t x \<or> x \<in> set chs"
proof (induction chs rule: s9.induct)
  case 1
  then show ?case by simp
next
  case (2 a rest)
  show ?case
  proof (cases "win9 (a # rest)")
    case True
    with "2.prems" have "x \<in> set (prep [116, 111] (s9 (tl rest)))" by (simp add: s9.simps(2))
    from prep_members[OF to_has_t this] "2.IH"(1)[OF True]
    have "has_t x \<or> x \<in> set (tl rest)" by blast
    then show ?thesis by (cases rest) auto
  next
    case False
    with "2.prems" "2.IH"(2)[OF False] show ?thesis by (auto simp: s9.simps(2))
  qed
qed

lemma s8_members: "x \<in> set (s8 chs) \<Longrightarrow> has_t x \<or> x \<in> set chs"
proof (induction chs rule: s8.induct)
  case 1
  then show ?case by simp
next
  case (2 w rest)
  show ?case
  proof (cases "win8 (w # rest)")
    case True
    with "2.prems" have "x \<in> set (prep (w @ [116, 111]) (s8 (drop 3 rest)))"
      by (simp add: s8.simps(2))
    moreover have "has_t (w @ [116, 111])" by (simp add: has_t_append to_has_t)
    ultimately have "has_t x \<or> x \<in> set (s8 (drop 3 rest))" using prep_members by blast
    with "2.IH"(1)[OF True] have "has_t x \<or> x \<in> set (drop 3 rest)" by blast
    then show ?thesis using set_drop_subset[of 3 rest] by auto
  next
    case False
    with "2.prems" "2.IH"(2)[OF False] show ?thesis by (auto simp: s8.simps(2))
  qed
qed

lemma s5_members:
  "x \<in> set (s5 chs) \<Longrightarrow> x = [114, 117, 112, 101, 101, 115] \<or> x \<in> set chs"
proof (induction chs rule: s5.induct)
  case 1
  then show ?case by simp
next
  case (2 a rest)
  show ?case
  proof (cases "win5 (a # rest)")
    case True
    with "2.prems" have "x = [114, 117, 112, 101, 101, 115] \<or> x \<in> set (s5 (drop 2 rest))"
      by (simp add: s5.simps(2))
    with "2.IH"(1)[OF True] have "x = [114, 117, 112, 101, 101, 115] \<or> x \<in> set (drop 2 rest)"
      by blast
    then show ?thesis using set_drop_subset[of 2 rest] by auto
  next
    case False
    with "2.prems" "2.IH"(2)[OF False] show ?thesis by (auto simp: s5.simps(2))
  qed
qed

lemma fixed_has_t: "\<not> has_t k \<Longrightarrow> has_t ch \<Longrightarrow> sub k r ch = ch"
  using ci_eq_has_t[of ch k] by (auto simp: sub_def)

lemma fixed_sub: "sub k r r' = r' \<Longrightarrow> sub k r ch = ch \<Longrightarrow> sub k r (sub k' r' ch) = sub k' r' ch"
  by (simp add: sub_def split: if_splits)

lemma fixed_self: "sub k r r = r \<Longrightarrow> sub k r (sub k r ch) = sub k r ch"
  by (simp add: sub_def split: if_splits)

subsection \<open>The whole table\<close>

text \<open>
  One entry of the table as a function on chunks, the entries this reading covers,
  and what makes an entry leave the chunks as they are. \<open>ok_pair e e'\<close> is a
  check on two entries that can be computed: applying \<open>e'\<close> after \<open>e\<close> does not bring
  back a match of \<open>e\<close>.
\<close>

definition cstep :: "jsstring \<times> jsstring \<Rightarrow> jsstring list \<Rightarrow> jsstring list" where
  "cstep e chs =
     (if fst e = [114, 250, 112, 101, 97, 115] then s5 chs
      else if fst e = [254, 97, 240] then s8 chs
      else if fst e = [97, 240] then s9 chs
      else map (sub (fst e) (snd e)) chs)"

definition wf_entry :: "jsstring \<times> jsstring \<Rightarrow> bool" where
  "wf_entry e =
     (if fst e = [114, 250, 112, 101, 97, 115] then snd e = [114, 117, 112, 101, 101, 115]
      else if fst e = [254, 97, 240] then snd e = [116, 111]
      else if fst e = [97, 240] then snd e = [116, 111]
      else word_chunk (fst e) \<and> word_chunk (snd e))"

definition good :: "jsstring \<times> jsstring \<Rightarrow> jsstring list \<Rightarrow> bool" where
  "good e chs =
     (if fst e = [114, 250, 112, 101, 97, 115] then \<not> has5 chs
      else if fst e = [254, 97, 240] then True
      else if fst e = [97, 240] then \<not> has9 chs
      else list_all (\<lambda>ch. sub (fst e) (snd e) ch = ch) chs)"

definition ok_self :: "jsstring \<times> jsstring \<Rightarrow> bool" where
  "ok_self e =
     (if fst e = [114, 250, 112, 101, 97, 115] \<or> fst e = [254, 97, 240] \<or> fst e = [97, 240] then True
      else sub (fst e) (snd e) (snd e) = snd e)"

definition ok_pair :: "jsstring \<times> jsstring \<Rightarrow> jsstring \<times> jsstring \<Rightarrow> bool" where
  "ok_pair e e' =
     (if fst e = [254, 97, 240] then True
      else if fst e = [114, 250, 112, 101, 97, 115] then
        (if fst e' = [254, 97, 240] \<or> fst e' = [97, 240] then True
         else if fst e' = [114, 250, 112, 101, 97, 115] then False
         else \<not> ci_eq (fst e') [114] \<and> \<not> ci_eq (snd e') [114] \<and>
              \<not> ci_eq (fst e') [250] \<and> \<not> ci_eq (snd e') [250] \<and>
              \<not> ci_eq (fst e') [112, 101, 97, 115] \<and> \<not> ci_eq (snd e') [112, 101, 97, 115])
      else if fst e = [97, 240] then
        (if fst e' = [114, 250, 112, 101, 97, 115] \<or> fst e' = [254, 97, 240] \<or> fst e' = [97, 240]
         then False
         else word_chunk (fst e') \<and> word_chunk (snd e') \<and>
              \<not> ci_eq (fst e') [97] \<and> \<not> ci_eq (snd e') [97] \<and>
              \<not> ci_eq (fst e') [240] \<and> \<not> ci_eq (snd e') [240])
      else
        (if fst e' = [114, 250, 112, 101, 97, 115]
         then sub (fst e) (snd e) [114, 117, 112, 101, 101, 115] = [114, 117, 112, 101, 101, 115]
         else if fst e' = [254, 97, 240] \<or> fst e' = [97, 240] then \<not> has_t (fst e)
         else sub (fst e) (snd e) (snd e') = snd e'))"

fun pairs_ok :: "(jsstring \<times> jsstring) list \<Rightarrow> bool" where
  "pairs_ok [] = True"
| "pairs_ok (e # es) = (ok_self e \<and> list_all (ok_pair e) es \<and> pairs_ok es)"

lemma step_chunks:
  assumes "wf_entry e" "canon chs"
  shows "regex_replace (fst e) (snd e) None (concat chs) = concat (cstep e chs) \<and> canon (cstep e chs)"
proof -
  have ctx: "ok_ctx None chs" by (simp add: ok_ctx_def wordness_def)
  have nw: "\<not> (wordness None \<and> match_at [254, 97, 240] None (concat chs))"
    by (simp add: wordness_def)
  consider (p5) "fst e = [114, 250, 112, 101, 97, 115]"
    | (p8) "fst e = [254, 97, 240]"
    | (p9) "fst e = [97, 240]"
    | (t) "fst e \<noteq> [114, 250, 112, 101, 97, 115]" "fst e \<noteq> [254, 97, 240]" "fst e \<noteq> [97, 240]"
    by blast
  then show ?thesis
  proof cases
    case p5
    with assms(1) have "snd e = [114, 117, 112, 101, 101, 115]" by (simp add: wf_entry_def)
    with p5 replace_chunks_s5[OF assms(2) ctx] canon_s5[OF assms(2)] show ?thesis
      by (simp add: cstep_def)
  next
    case p8
    with assms(1) have "snd e = [116, 111]" by (simp add: wf_entry_def)
    with p8 replace_chunks_s8[OF assms(2) ctx nw] canon_s8[OF assms(2)] show ?thesis
      by (simp add: cstep_def)
  next
    case p9
    with assms(1) have "snd e = [116, 111]" by (simp add: wf_entry_def)
    with p9 replace_chunks_s9[OF assms(2) ctx] canon_s9[OF assms(2)] show ?thesis
      by (simp add: cstep_def)
  next
    case t
    with assms(1) have w: "word_chunk (fst e)" "word_chunk (snd e)" by (simp_all add: wf_entry_def)
    from t replace_word_chunks[OF w(1) assms(2) ctx, of "snd e"] canon_map_sub[OF w assms(2)]
    show ?thesis by (simp add: cstep_def)
  qed
qed

lemma run_chunks:
  "list_all wf_entry es \<Longrightarrow> canon chs \<Longrightarrow>
     foldl (\<lambda>acc (wrong, correct). regex_replace wrong correct None acc) (concat chs) es
       = concat (foldl (\<lambda>acc e. cstep e acc) chs es) \<and>
     canon (foldl (\<lambda>acc e. cstep e acc) chs es)"
proof (induction es arbitrary: chs)
  case Nil
  then show ?case by simp
next
  case (Cons e es)
  from Cons.prems have w: "wf_entry e" and ws: "list_all wf_entry es" by simp_all
  from step_chunks[OF w Cons.prems(2)] Cons.IH[OF ws, of "cstep e chs"]
  show ?case by (simp add: case_prod_beta)
qed

lemma good_self: "ok_self e \<Longrightarrow> good e (cstep e chs)"
proof -
  assume ok: "ok_self e"
  consider (p5) "fst e = [114, 250, 112, 101, 97, 115]"
    | (p8) "fst e = [254, 97, 240]"
    | (p9) "fst e = [97, 240]"
    | (t) "fst e \<noteq> [114, 250, 112, 101, 97, 115]" "fst e \<noteq> [254, 97, 240]" "fst e \<noteq> [97, 240]"
    by blast
  then show ?thesis
  proof cases
    case p5
    then show ?thesis by (simp add: good_def cstep_def s5_no_has5)
  next
    case p8
    then show ?thesis by (simp add: good_def)
  next
    case p9
    then show ?thesis by (simp add: good_def cstep_def s9_no_has9)
  next
    case t
    with ok have "sub (fst e) (snd e) (snd e) = snd e" by (simp add: ok_self_def)
    from fixed_self[OF this] t show ?thesis by (simp add: good_def cstep_def list_all_iff)
  qed
qed

lemma good_pair:
  assumes ok: "ok_pair e e'" and g: "good e chs"
  shows "good e (cstep e' chs)"
proof -
  consider (e8) "fst e = [254, 97, 240]"
    | (e5) "fst e = [114, 250, 112, 101, 97, 115]"
    | (e9) "fst e = [97, 240]"
    | (et) "fst e \<noteq> [114, 250, 112, 101, 97, 115]" "fst e \<noteq> [254, 97, 240]" "fst e \<noteq> [97, 240]"
    by blast
  then show ?thesis
  proof cases
    case e8
    then show ?thesis by (simp add: good_def)
  next
    case e5
    with g have n: "\<not> has5 chs" by (simp add: good_def)
    have "\<not> has5 (cstep e' chs)"
    proof (cases "fst e' = [254, 97, 240] \<or> fst e' = [97, 240]")
      case True
      then show ?thesis
      proof
        assume p: "fst e' = [254, 97, 240]"
        from n have "\<not> has5 (s8 chs)" using has5_s8[of chs] by blast
        with p show ?thesis by (simp add: cstep_def)
      next
        assume p: "fst e' = [97, 240]"
        from n have "\<not> has5 (s9 chs)" using has5_s9[of chs] by blast
        with p show ?thesis by (simp add: cstep_def)
      qed
    next
      case False
      from ok e5 False have o: "(if fst e' = [114, 250, 112, 101, 97, 115] then False
         else \<not> ci_eq (fst e') [114] \<and> \<not> ci_eq (snd e') [114] \<and>
              \<not> ci_eq (fst e') [250] \<and> \<not> ci_eq (snd e') [250] \<and>
              \<not> ci_eq (fst e') [112, 101, 97, 115] \<and> \<not> ci_eq (snd e') [112, 101, 97, 115])"
        by (simp add: ok_pair_def)
      then have ne: "fst e' \<noteq> [114, 250, 112, 101, 97, 115]" by - (rule notI, simp)
      with o have c: "\<not> ci_eq (fst e') [114]" "\<not> ci_eq (snd e') [114]"
          "\<not> ci_eq (fst e') [250]" "\<not> ci_eq (snd e') [250]"
          "\<not> ci_eq (fst e') [112, 101, 97, 115]" "\<not> ci_eq (snd e') [112, 101, 97, 115]"
        by simp_all
      from has5_map_sub[OF c] n False ne show ?thesis by (simp add: cstep_def)
    qed
    with e5 show ?thesis by (simp add: good_def)
  next
    case e9
    with g have n: "\<not> has9 chs" by (simp add: good_def)
    from ok e9 have o: "(if fst e' = [114, 250, 112, 101, 97, 115] \<or> fst e' = [254, 97, 240] \<or> fst e' = [97, 240]
         then False
         else word_chunk (fst e') \<and> word_chunk (snd e') \<and>
              \<not> ci_eq (fst e') [97] \<and> \<not> ci_eq (snd e') [97] \<and>
              \<not> ci_eq (fst e') [240] \<and> \<not> ci_eq (snd e') [240])"
      by (simp add: ok_pair_def)
    then have ne0: "\<not> (fst e' = [114, 250, 112, 101, 97, 115] \<or> fst e' = [254, 97, 240] \<or> fst e' = [97, 240])"
      by - (rule notI, simp)
    then have ne: "fst e' \<noteq> [114, 250, 112, 101, 97, 115]" "fst e' \<noteq> [254, 97, 240]"
        "fst e' \<noteq> [97, 240]" by simp_all
    from o ne0 have c: "word_chunk (fst e')" "word_chunk (snd e')"
        "\<not> ci_eq (fst e') [97]" "\<not> ci_eq (snd e') [97]"
        "\<not> ci_eq (fst e') [240]" "\<not> ci_eq (snd e') [240]"
      by simp_all
    from has9_map_sub[OF c] n ne have "\<not> has9 (cstep e' chs)" by (simp add: cstep_def)
    with e9 show ?thesis by (simp add: good_def)
  next
    case et
    with g have f: "\<And>ch. ch \<in> set chs \<Longrightarrow> sub (fst e) (snd e) ch = ch"
      by (simp add: good_def list_all_iff)
    have "\<And>x. x \<in> set (cstep e' chs) \<Longrightarrow> sub (fst e) (snd e) x = x"
    proof -
      fix x assume x: "x \<in> set (cstep e' chs)"
      consider (p5) "fst e' = [114, 250, 112, 101, 97, 115]"
        | (p8) "fst e' = [254, 97, 240]"
        | (p9) "fst e' \<noteq> [254, 97, 240]" "fst e' = [97, 240]"
        | (t) "fst e' \<noteq> [114, 250, 112, 101, 97, 115]" "fst e' \<noteq> [254, 97, 240]"
          "fst e' \<noteq> [97, 240]"
        by blast
      then show "sub (fst e) (snd e) x = x"
      proof cases
        case p5
        with ok et have "sub (fst e) (snd e) [114, 117, 112, 101, 101, 115] = [114, 117, 112, 101, 101, 115]"
          by (simp add: ok_pair_def)
        moreover from x p5 have "x = [114, 117, 112, 101, 101, 115] \<or> x \<in> set chs"
          using s5_members[of x chs] by (simp add: cstep_def)
        ultimately show ?thesis using f by auto
      next
        case p8
        with ok et have "\<not> has_t (fst e)" by (simp add: ok_pair_def)
        moreover from x p8 have "has_t x \<or> x \<in> set chs" using s8_members[of x chs] by (simp add: cstep_def)
        ultimately show ?thesis using f fixed_has_t[of "fst e" x "snd e"] by blast
      next
        case p9
        with ok et have "\<not> has_t (fst e)" by (simp add: ok_pair_def)
        moreover from x p9 have "has_t x \<or> x \<in> set chs" using s9_members[of x chs] by (simp add: cstep_def)
        ultimately show ?thesis using f fixed_has_t[of "fst e" x "snd e"] by blast
      next
        case t
        with ok et have "sub (fst e) (snd e) (snd e') = snd e'" by (simp add: ok_pair_def)
        moreover from x t obtain ch where "ch \<in> set chs" "x = sub (fst e') (snd e') ch"
          by (auto simp: cstep_def)
        ultimately show ?thesis using f fixed_sub[of "fst e" "snd e" "snd e'" ch "fst e'"] by simp
      qed
    qed
    with et show ?thesis by (simp add: good_def list_all_iff)
  qed
qed

lemma good_run:
  "\<forall>e \<in> set done. good e chs \<Longrightarrow> \<forall>e \<in> set done. list_all (ok_pair e) es \<Longrightarrow> pairs_ok es \<Longrightarrow>
     \<forall>e \<in> set done \<union> set es. good e (foldl (\<lambda>acc e. cstep e acc) chs es)"
proof (induction es arbitrary: "done" chs)
  case Nil
  then show ?case by simp
next
  case (Cons e' es)
  from Cons.prems(3) have self: "ok_self e'" and nxt: "list_all (ok_pair e') es" and rest: "pairs_ok es"
    by simp_all
  have 1: "\<forall>e \<in> set (e' # done). good e (cstep e' chs)"
  proof
    fix e assume "e \<in> set (e' # done)"
    then consider "e = e'" | "e \<in> set done" by auto
    then show "good e (cstep e' chs)"
    proof cases
      case 1
      with good_self[OF self] show ?thesis by simp
    next
      case 2
      with Cons.prems(1,2) have "good e chs" "ok_pair e e'" by auto
      then show ?thesis using good_pair by blast
    qed
  qed
  have 2: "\<forall>e \<in> set (e' # done). list_all (ok_pair e) es"
    using Cons.prems(2) nxt by auto
  from Cons.IH[OF 1 2 rest] show ?case by simp
qed

lemma good_fixed:
  assumes all: "\<forall>e \<in> set es. good e y" and p9: "([97, 240], [116, 111]) \<in> set es" and e: "e \<in> set es"
  shows "cstep e y = y"
proof -
  from all p9 have n9: "\<not> has9 y" by (auto simp: good_def)
  then have n8: "\<not> has8 y" using has8_has9 by blast
  from all e have g: "good e y" by simp
  consider (p5) "fst e = [114, 250, 112, 101, 97, 115]"
    | (p8) "fst e = [254, 97, 240]"
    | (p9) "fst e = [97, 240]"
    | (t) "fst e \<noteq> [114, 250, 112, 101, 97, 115]" "fst e \<noteq> [254, 97, 240]" "fst e \<noteq> [97, 240]"
    by blast
  then show ?thesis
  proof cases
    case p5
    with g show ?thesis by (simp add: good_def cstep_def s5_id)
  next
    case p8
    with n8 show ?thesis by (simp add: cstep_def s8_id)
  next
    case p9
    with n9 show ?thesis by (simp add: cstep_def s9_id)
  next
    case t
    with g have "map (sub (fst e) (snd e)) y = y"
      by (simp add: good_def list_all_iff map_idI)
    with t show ?thesis by (simp add: cstep_def)
  qed
qed

lemma foldl_fixed:
  "\<forall>e \<in> set es. f e y = y \<Longrightarrow> foldl (\<lambda>acc e. f e acc) y es = y"
  by (induction es) simp_all

lemma nameCorrections_units:
  "nameCorrections =
     [([110, 117, 100, 106], [65, 110, 117, 106]),
      ([97, 110, 117, 106], [65, 110, 117, 106]),
      ([103, 114, 97, 122, 105, 101], [82, 97, 104, 117, 108]),
      ([103, 114, 97, 122, 105], [82, 97, 104, 117, 108]),
      ([114, 250, 112, 101, 97, 115], [114, 117, 112, 101, 101, 115]),
      ([114, 117, 112, 97, 121, 101], [114, 117, 112, 101, 101, 115]),
      ([114, 117, 112, 97, 121], [114, 117, 112, 101, 101, 115]),
      ([254, 97, 240], [116, 111]),
      ([97, 240], [116, 111]),
      ([115, 97, 117], [49, 48, 48]),
      ([115, 111], [49, 48, 48]),
      ([112, 97, 99, 104, 97, 115], [53, 48]),
      ([100, 97, 115], [49, 48]),
      ([98, 101, 101, 115], [50, 48]),
      ([112, 97, 99, 104, 101, 101, 115], [50, 53]),
      ([112, 97, 97, 110, 99, 104], [53])]"
  by (simp add: nameCorrections_def js_def)

lemma nameCorrections_wf: "list_all wf_entry nameCorrections"
  unfolding nameCorrections_units
  by (simp add: wf_entry_def word_chunk_def is_word_char_def)

lemma nameCorrections_pairs_ok: "pairs_ok nameCorrections"
  unfolding nameCorrections_units
  by (simp add: ok_self_def ok_pair_def sub_def ci_eq_def has_t_def word_chunk_def
      is_word_char_def canonicalize_def)

lemma nameCorrections_has_p9: "([97, 240], [116, 111]) \<in> set nameCorrections"
  unfolding nameCorrections_units by simp

text \<open>
  Claim C5. The correction of a transcript is idempotent: for every text, the pass over
  the whole table applied to its own result gives that result again.
\<close>

theorem applyCorrections_idempotent:
  "applyCorrections (applyCorrections t) = applyCorrections t"
proof -
  obtain chs where chs: "canon chs" "concat chs = t" using chunks_exist by blast
  define y where "y = foldl (\<lambda>acc e. cstep e acc) chs nameCorrections"
  from run_chunks[OF nameCorrections_wf chs(1)] chs(2)
  have 1: "applyCorrections t = concat y" and cy: "canon y"
    by (simp_all add: applyCorrections_def y_def)
  have "\<forall>e \<in> set [] \<union> set nameCorrections. good e y"
    unfolding y_def by (rule good_run) (simp_all add: nameCorrections_pairs_ok)
  then have g: "\<forall>e \<in> set nameCorrections. good e y" by simp
  have "\<forall>e \<in> set nameCorrections. cstep e y = y"
    using good_fixed[OF g nameCorrections_has_p9] by blast
  then have 2: "foldl (\<lambda>acc e. cstep e acc) y nameCorrections = y" by (rule foldl_fixed)
  from run_chunks[OF nameCorrections_wf cy] 2
  have "applyCorrections (concat y) = concat y" by (simp add: applyCorrections_def)
  with 1 show ?thesis by simp
qed

end
